theory Spec2Isabelle
  imports Complex_Main "HOL-Library.Sublist"
begin

section \<open>Persistence: schema and the title trigger (database/functions.sql)\<close>

text \<open>
  The tables follow the \<^verbatim>\<open>CREATE TABLE\<close> statements. A UUID is a natural number.
  The timestamp columns are left out: no statement below reads them, and the order of a
  table's rows (the list order) is the order of insertion. \<open>title\<close> and \<open>model\<close> are
  nullable columns, hence options; \<open>role\<close> and \<open>content\<close> are \<^verbatim>\<open>NOT NULL\<close>.
\<close>

type_synonym uuid = nat

record conversation =
  conv_id :: uuid
  user_id :: uuid
  title :: "string option"

record message_row =
  msg_id :: uuid
  conversation_id :: uuid
  role :: string
  content :: string
  model :: "string option"

record database =
  conversations :: "conversation list"
  messages :: "message_row list"

datatype db_error =
  StringDataRightTruncation
  | CheckViolation
  | UniqueViolation
  | ForeignKeyViolation

text \<open>
  \<^verbatim>\<open>auto_generate_conversation_title\<close>, the body of the \<^verbatim>\<open>AFTER INSERT\<close> row trigger on
  \<^verbatim>\<open>messages\<close>. It runs on the table that already holds the new row, which is why the
  \<^verbatim>\<open>NOT EXISTS\<close> query excludes the row's own id. \<^verbatim>\<open>SUBSTRING(s FROM 1 FOR 50)\<close> is the first
  50 characters, \<^verbatim>\<open>LENGTH\<close> counts characters, and the \<^verbatim>\<open>UPDATE\<close> touches the rows of
  \<^verbatim>\<open>conversations\<close> that satisfy its \<^verbatim>\<open>WHERE\<close> clause (a null title satisfies nothing).
\<close>

definition auto_generate_conversation_title :: "database \<Rightarrow> message_row \<Rightarrow> database" where
  "auto_generate_conversation_title db new =
     (if \<not> list_ex (\<lambda>m. conversation_id m = conversation_id new \<and> msg_id m \<noteq> msg_id new)
               (messages db)
      then
        (if role new = ''user'' then
           (let first_message = take 50 (content new);
                generated_title =
                  (if length (content new) > 50 then first_message @ ''...''
                   else first_message)
            in db\<lparr>conversations :=
                    map (\<lambda>c. if conv_id c = conversation_id new
                                  \<and> title c = Some ''New Conversation''
                               then c\<lparr>title := Some generated_title\<rparr> else c)
                        (conversations db)\<rparr>)
         else db)
      else db)"

text \<open>
  \<^verbatim>\<open>INSERT INTO messages\<close>, with the checks in the order in which the database makes
  them: a \<open>role\<close> longer than \<^verbatim>\<open>VARCHAR(20)\<close> or a \<open>model\<close> longer than \<^verbatim>\<open>VARCHAR(100)\<close>
  does not fit its column; then the \<^verbatim>\<open>CHECK\<close> on \<open>role\<close>; then the primary key; then the
  foreign key to \<^verbatim>\<open>conversations\<close>. A row that passes is appended, and the trigger
  fires. (Where the characters beyond the column's length are all spaces the database
  cuts the value instead of refusing it; the model refuses every value that is too long.
  The statements below that speak of a successful insert are about rows that fit.)
\<close>

definition fits_columns :: "message_row \<Rightarrow> bool" where
  "fits_columns new =
     (length (role new) \<le> 20
      \<and> (case model new of None \<Rightarrow> True | Some m \<Rightarrow> length m \<le> 100))"

definition insert_message :: "database \<Rightarrow> message_row \<Rightarrow> db_error + database" where
  "insert_message db new =
     (if \<not> fits_columns new then Inl StringDataRightTruncation
      else if role new \<notin> set [''user'', ''assistant'', ''system''] then Inl CheckViolation
      else if list_ex (\<lambda>m. msg_id m = msg_id new) (messages db) then Inl UniqueViolation
      else if \<not> list_ex (\<lambda>c. conv_id c = conversation_id new) (conversations db)
        then Inl ForeignKeyViolation
      else Inr (auto_generate_conversation_title
                  (db\<lparr>messages := messages db @ [new]\<rparr>) new))"

text \<open>The title stored for a conversation id (the row a \<^verbatim>\<open>SELECT\<close> by primary key returns).\<close>

definition title_of :: "database \<Rightarrow> uuid \<Rightarrow> string option option" where
  "title_of db cid = map_option title (find (\<lambda>c. conv_id c = cid) (conversations db))"

text \<open>The conversation already has a message: the new row is not its first.\<close>

definition has_messages :: "database \<Rightarrow> uuid \<Rightarrow> bool" where
  "has_messages db cid = list_ex (\<lambda>m. conversation_id m = cid) (messages db)"

text \<open>The title the claim describes: 50 characters, and an ellipsis after a longer content.\<close>

definition derived_title :: "string \<Rightarrow> string" where
  "derived_title s = take 50 s @ (if length s > 50 then ''...'' else [])"

section \<open>Context manager (utils/context_manager.py)\<close>

text \<open>
  An entry of the context is the dictionary \<^verbatim>\<open>{"role": ..., "content": ...}\<close>. The history is
  the list of rows \<^verbatim>\<open>get_conversation_messages\<close> returns, oldest first.
  \<^verbatim>\<open>prepare_context\<close> starts from the system entry and appends one entry per message, in
  a loop.
\<close>

record context_entry =
  entry_role :: string
  entry_content :: string

definition prepare_context :: "message_row list \<Rightarrow> string \<Rightarrow> context_entry list" where
  "prepare_context msgs system_prompt =
     foldl (\<lambda>ctx msg. ctx @ [\<lparr>entry_role = role msg, entry_content = content msg\<rparr>])
           [\<lparr>entry_role = ''system'', entry_content = system_prompt\<rparr>] msgs"

section \<open>File service (services/file_service.py)\<close>

subsection \<open>Images\<close>

text \<open>
  What the function reads of a decoded image: its size and its colour mode. The pixel
  raster is left out (no statement below depends on a pixel). Decoding
  (\<^verbatim>\<open>Image.open\<close>) belongs to the imaging library and is a parameter: it gives the
  image, or nothing where the library raises.
\<close>

record image =
  width :: nat
  height :: nat
  mode :: string

datatype file_error =
  CannotIdentifyImage
  | ImageTooSmall
  | CannotWriteMode string

text \<open>
  \<^verbatim>\<open>Image.thumbnail\<close> of the imaging library (Pillow 10.1), for the requested box
  \<open>(x, y)\<close>: an image that fits the box is left alone; otherwise one side of the box is
  replaced by the proportional length, rounded down or up, whichever keeps the ratio
  better (down on a tie), and at least 1. The library computes with floating point
  numbers; the model computes with exact reals.
\<close>

definition round_aspect :: "real \<Rightarrow> (int \<Rightarrow> real) \<Rightarrow> nat" where
  "round_aspect number key =
     nat (max (if key \<lfloor>number\<rfloor> \<le> key \<lceil>number\<rceil> then \<lfloor>number\<rfloor> else \<lceil>number\<rceil>) 1)"

definition thumbnail :: "image \<Rightarrow> nat \<times> nat \<Rightarrow> image" where
  "thumbnail img box =
     (let x = fst box; y = snd box in
      if x \<ge> width img \<and> y \<ge> height img then img
      else
        (let aspect = real (width img) / real (height img) in
         if real x / real y \<ge> aspect
         then img\<lparr>width := round_aspect (real y * aspect)
                                (\<lambda>n. \<bar>aspect - real_of_int n / real y\<bar>),
                  height := y\<rparr>
         else img\<lparr>width := x,
                  height := round_aspect (real x / aspect)
                                (\<lambda>n. if n = 0 then 0 else \<bar>aspect - real x / real_of_int n\<bar>)\<rparr>))"

text \<open>\<^verbatim>\<open>Image.convert('RGB')\<close> keeps the size and sets the mode.\<close>

definition convert :: "image \<Rightarrow> string \<Rightarrow> image" where
  "convert img m = img\<lparr>mode := m\<rparr>"

text \<open>
  \<^verbatim>\<open>Image.save(..., format='JPEG', quality=q)\<close>: the library's JPEG writer accepts the
  modes of its table of raw modes and raises \<^verbatim>\<open>OSError: cannot write mode ... as JPEG\<close> for
  any other. The bytes written are not computed: \<open>Jpeg img q\<close> stands for the encoding of
  \<open>img\<close> at quality \<open>q\<close>, and \<open>Base64\<close> for its base64 text.
\<close>

datatype jpeg = Jpeg (jpeg_image: image) (jpeg_quality: nat)

datatype base64 = Base64 (decoded: jpeg)

definition save_jpeg :: "image \<Rightarrow> nat \<Rightarrow> file_error + jpeg" where
  "save_jpeg img quality =
     (if mode img \<in> set [''1'', ''L'', ''RGB'', ''RGBX'', ''CMYK'', ''YCbCr'']
      then Inr (Jpeg img quality)
      else Inl (CannotWriteMode (mode img)))"

record image_payload =
  payload_type :: string
  media_type :: string
  payload_data :: base64

text \<open>
  \<^verbatim>\<open>convert_image_to_base64\<close>, step by step as the source numbers them. The file name is
  not used by the body.
\<close>

definition convert_image_to_base64 ::
    "('f \<Rightarrow> image option) \<Rightarrow> 'f \<Rightarrow> string \<Rightarrow> file_error + image_payload" where
  "convert_image_to_base64 image_open file_content filename =
     (case image_open file_content of
        None \<Rightarrow> Inl CannotIdentifyImage
      | Some img \<Rightarrow>
          if width img < 50 \<or> height img < 50 then Inl ImageTooSmall
          else
            (let img1 = (if width img > 4000 \<or> height img > 4000
                         then thumbnail img (4000, 4000) else img);
                 img2 = (if mode img1 \<notin> set [''RGB'', ''RGBA'']
                         then convert img1 ''RGB'' else img1)
             in case save_jpeg img2 95 of
                  Inl e \<Rightarrow> Inl e
                | Inr img_bytes \<Rightarrow>
                    Inr \<lparr>payload_type = ''image'', media_type = ''image/jpeg'',
                         payload_data = Base64 img_bytes\<rparr>))"

subsection \<open>PDF text extraction\<close>

text \<open>
  A character is a code point below 256. \<^verbatim>\<open>str.isspace\<close> holds there for the control
  characters 9 to 13 and 28 to 31, the space, and the code points 133 and 160;
  \<^verbatim>\<open>str.strip()\<close> removes such characters from both ends. \<open>str_nat\<close> is the decimal
  numeral an f-string writes for a non-negative integer; \<open>digit_char\<close> is only applied to
  a number below 10.
\<close>

definition isspace :: "char \<Rightarrow> bool" where
  "isspace c = (of_char c \<in> set [9, 10, 11, 12, 13, 28, 29, 30, 31, 32, 133, 160 :: nat])"

definition strip :: "string \<Rightarrow> string" where
  "strip s = rev (dropWhile isspace (rev (dropWhile isspace s)))"

definition digit_char :: "nat \<Rightarrow> char" where
  "digit_char d = ''0123456789'' ! d"

fun str_nat :: "nat \<Rightarrow> string" where
  "str_nat n = (if n < 10 then [digit_char n]
                else str_nat (n div 10) @ [digit_char (n mod 10)])"

declare str_nat.simps [simp del]

text \<open>
  A parsed document is the list of its pages, each given by the text
  \<^verbatim>\<open>page.extract_text()\<close> returns for it; reading the file and extracting a page's text
  belong to the PDF library. \<open>extract_loop\<close> is the \<^verbatim>\<open>for\<close> loop over the page numbers
  \<open>0, 1, ...\<close>, with the text accumulated so far.
\<close>

fun extract_loop :: "nat \<Rightarrow> string list \<Rightarrow> string \<Rightarrow> string" where
  "extract_loop page_num [] text = text"
| "extract_loop page_num (page # pages) text =
     extract_loop (page_num + 1) pages
       ((text @ [CHR 0x0A] @ ''--- Page '' @ str_nat (page_num + 1) @ '' ---'' @ [CHR 0x0A])
          @ page)"

definition extract_text_from_pdf :: "string list \<Rightarrow> string" where
  "extract_text_from_pdf pages = strip (extract_loop 0 pages [])"

text \<open>
  The page-boundary marker of page \<open>k\<close> as the specification writes it, and the number of
  places where a pattern occurs in a text.
\<close>

definition page_marker :: "nat \<Rightarrow> string" where
  "page_marker k = ''--- Page '' @ str_nat k @ '' ---''"

fun occurrences :: "string \<Rightarrow> string \<Rightarrow> nat" where
  "occurrences p [] = (if p = [] then 1 else 0)"
| "occurrences p (c # s) = (if prefix p (c # s) then 1 else 0) + occurrences p s"

section \<open>Model relay (services/ollama_service.py)\<close>

subsection \<open>JSON values and the methods the relay calls on them\<close>

text \<open>
  The values \<^verbatim>\<open>json.loads\<close> can return. A dictionary is the list of its items, read with
  \<open>map_of\<close>. \<open>truthy\<close> is the truth value Python gives a value in a condition.
\<close>

datatype json =
  JNull
  | JBool bool
  | JInt int
  | JFloat real
  | JNaN
  | JInfinity bool
  | JStr string
  | JArr "json list"
  | JObj "(string \<times> json) list"

fun truthy :: "json \<Rightarrow> bool" where
  "truthy JNull = False"
| "truthy (JBool b) = b"
| "truthy (JInt i) = (i \<noteq> 0)"
| "truthy (JFloat r) = (r \<noteq> 0)"
| "truthy JNaN = True"
| "truthy (JInfinity negative) = True"
| "truthy (JStr s) = (s \<noteq> [])"
| "truthy (JArr xs) = (xs \<noteq> [])"
| "truthy (JObj items) = (items \<noteq> [])"

datatype py_error = JSONDecodeError | AttributeError | TypeError

text \<open>\<^verbatim>\<open>d.get(key, fallback)\<close>: only a dictionary has the method.\<close>

fun dict_get :: "json \<Rightarrow> string \<Rightarrow> json \<Rightarrow> py_error + json" where
  "dict_get (JObj items) key fallback =
     Inr (case map_of items key of None \<Rightarrow> fallback | Some v \<Rightarrow> v)"
| "dict_get other key fallback = Inl AttributeError"

text \<open>
  \<^verbatim>\<open>json.loads\<close> is the standard library's. Its grammar is the parameter \<open>decode\<close>: the
  value of a document, or nothing where the library raises. One fact of the library is
  written out, because the relay's treatment of blank lines rests on it: a document that
  is empty or consists of JSON whitespace only (space, tab, line feed, carriage return)
  has no value (\<^verbatim>\<open>JSONDecodeError: Expecting value\<close>).
\<close>

definition json_whitespace :: "char \<Rightarrow> bool" where
  "json_whitespace c = (c \<in> set [CHR '' '', CHR 0x09, CHR 0x0A, CHR 0x0D])"

definition json_loads :: "(string \<Rightarrow> json option) \<Rightarrow> string \<Rightarrow> py_error + json" where
  "json_loads decode s =
     (if list_all json_whitespace s then Inl JSONDecodeError
      else case decode s of None \<Rightarrow> Inl JSONDecodeError | Some v \<Rightarrow> Inr v)"

subsection \<open>The line iterator\<close>

text \<open>
  \<^verbatim>\<open>response.aiter_lines()\<close> belongs to the HTTP client library. It is modelled as a
  decoder with a buffer, fed one network read at a time: \<open>feed\<close> cuts the buffered text
  and the new read at every line feed, gives the complete lines and keeps the unfinished
  rest as the new buffer; at the end of the response a non-empty buffer is the last line.
  The line feed is the terminator of the wire format and the only one modelled.
\<close>

fun feed :: "string \<Rightarrow> string \<Rightarrow> string list \<times> string" where
  "feed buffer [] = ([], buffer)"
| "feed buffer (c # cs) =
     (if c = CHR 0x0A then (let (ls, b) = feed [] cs in (buffer # ls, b))
      else feed (buffer @ [c]) cs)"

fun aiter_lines_from :: "string \<Rightarrow> string list \<Rightarrow> string list" where
  "aiter_lines_from buffer [] = (if buffer = [] then [] else [buffer])"
| "aiter_lines_from buffer (read # reads) =
     (let (ls, b) = feed buffer read in ls @ aiter_lines_from b reads)"

definition aiter_lines :: "string list \<Rightarrow> string list" where
  "aiter_lines reads = aiter_lines_from [] reads"

subsection \<open>The streaming loop of generate_response_stream\<close>

text \<open>
  One pass of the loop body on a line: what \<^verbatim>\<open>json.loads\<close>, the three \<^verbatim>\<open>get\<close> calls and
  the two conditions do. The body ends the loop (\<^verbatim>\<open>break\<close>), raises, yields the content,
  or goes on to the next line.
\<close>

datatype step = Break | Raise py_error | Yield json | Next

definition loop_body :: "(string \<Rightarrow> json option) \<Rightarrow> string \<Rightarrow> step" where
  "loop_body decode line =
     (case json_loads decode line of
        Inl e \<Rightarrow> Raise e
      | Inr chunk \<Rightarrow>
          (case dict_get chunk ''done'' JNull of
             Inl e \<Rightarrow> Raise e
           | Inr done_flag \<Rightarrow>
               if truthy done_flag then Break
               else
                 (case dict_get chunk ''message'' (JObj []) of
                    Inl e \<Rightarrow> Raise e
                  | Inr message \<Rightarrow>
                      (case dict_get message ''content'' (JStr []) of
                         Inl e \<Rightarrow> Raise e
                       | Inr chunk_content \<Rightarrow>
                           if truthy chunk_content then Yield chunk_content else Next))))"

text \<open>
  A run of the generator: the values it yielded, in order, how it ended (it returned, or
  an exception left it), and the lines of the response it never read.
\<close>

datatype ending = Returned | Raised py_error

record run =
  yielded :: "json list"
  ended :: ending
  unread :: "string list"

fun stream_loop :: "(string \<Rightarrow> json option) \<Rightarrow> string list \<Rightarrow> run" where
  "stream_loop decode [] = \<lparr>yielded = [], ended = Returned, unread = []\<rparr>"
| "stream_loop decode (line # lines) =
     (case loop_body decode line of
        Break \<Rightarrow> \<lparr>yielded = [], ended = Returned, unread = lines\<rparr>
      | Raise e \<Rightarrow> \<lparr>yielded = [], ended = Raised e, unread = lines\<rparr>
      | Yield chunk_content \<Rightarrow>
          (let r = stream_loop decode lines in r\<lparr>yielded := chunk_content # yielded r\<rparr>)
      | Next \<Rightarrow> stream_loop decode lines)"

text \<open>
  \<^verbatim>\<open>generate_response_stream\<close>, from the response on: \<open>reads\<close> are the network reads of
  the body the model server sends. (Building the request is left to the caller of this
  model; the helper that formats the messages is not among the sources.)
\<close>

definition generate_response_stream :: "(string \<Rightarrow> json option) \<Rightarrow> string list \<Rightarrow> run" where
  "generate_response_stream decode reads = stream_loop decode (aiter_lines reads)"

subsection \<open>What a line says\<close>

text \<open>
  The notions the claims use, for a line of the response read against the wire contract
  \<^verbatim>\<open>{"message": {"content": ...}, "done": ...}\<close>: the object a line parses to; its
  \<open>done\<close> flag; its content field; its fragment, which is the content field when that is
  not empty; and whether the relay can process the line at all (it parses to an object
  whose \<open>message\<close>, if present, is an object).
\<close>

definition line_object :: "(string \<Rightarrow> json option) \<Rightarrow> string \<Rightarrow> (string \<times> json) list option" where
  "line_object decode line =
     (case json_loads decode line of Inr (JObj items) \<Rightarrow> Some items | _ \<Rightarrow> None)"

definition line_done :: "(string \<Rightarrow> json option) \<Rightarrow> string \<Rightarrow> bool" where
  "line_done decode line =
     (case line_object decode line of
        None \<Rightarrow> False
      | Some items \<Rightarrow> (case map_of items ''done'' of None \<Rightarrow> False | Some d \<Rightarrow> truthy d))"

definition line_content :: "(string \<Rightarrow> json option) \<Rightarrow> string \<Rightarrow> json option" where
  "line_content decode line =
     (case line_object decode line of
        None \<Rightarrow> None
      | Some items \<Rightarrow>
          (case map_of items ''message'' of
             Some (JObj message) \<Rightarrow> map_of message ''content''
           | _ \<Rightarrow> None))"

definition line_fragment :: "(string \<Rightarrow> json option) \<Rightarrow> string \<Rightarrow> json option" where
  "line_fragment decode line =
     (case line_content decode line of
        None \<Rightarrow> None
      | Some c \<Rightarrow> if truthy c then Some c else None)"

definition line_processable :: "(string \<Rightarrow> json option) \<Rightarrow> string \<Rightarrow> bool" where
  "line_processable decode line =
     (case line_object decode line of
        None \<Rightarrow> False
      | Some items \<Rightarrow>
          (case map_of items ''message'' of
             None \<Rightarrow> True | Some (JObj message) \<Rightarrow> True | Some other \<Rightarrow> False))"

text \<open>
  The exception with which the relay leaves at a line it cannot process: the parser's,
  when the line does not parse; otherwise \<^verbatim>\<open>AttributeError\<close>, raised by \<^verbatim>\<open>get\<close> on a value
  that is not a dictionary.
\<close>

definition line_error :: "(string \<Rightarrow> json option) \<Rightarrow> string \<Rightarrow> py_error" where
  "line_error decode line =
     (case json_loads decode line of Inl e \<Rightarrow> e | Inr v \<Rightarrow> AttributeError)"

definition blank_line :: "string \<Rightarrow> bool" where
  "blank_line line = list_all json_whitespace line"

subsection \<open>The lines of the specification's scenario\<close>

text \<open>
  Three lines as the model server writes them, a fourth whose \<open>done\<close> object carries a
  content, and the values \<^verbatim>\<open>json.loads\<close> gives for the four (the decoder of the examples
  below knows these documents only); \<open>wire_bad\<close> is a line that is not JSON.
\<close>

definition wire_the :: string where
  \<open>wire_the = ''{"message":{"content":"The"},"done":false}''\<close>

definition wire_end :: string where
  \<open>wire_end = ''{"message":{"content":" end."},"done":false}''\<close>

definition wire_done :: string where
  \<open>wire_done = ''{"done":true}''\<close>

definition wire_done_content :: string where
  \<open>wire_done_content = ''{"message":{"content":"x"},"done":true}''\<close>

definition wire_bad :: string where
  \<open>wire_bad = ''{bad''\<close>

definition scenario_decode :: "string \<Rightarrow> json option" where
  "scenario_decode =
     map_of
       [(wire_the, JObj [(''message'', JObj [(''content'', JStr ''The'')]), (''done'', JBool False)]),
        (wire_end, JObj [(''message'', JObj [(''content'', JStr '' end.'')]), (''done'', JBool False)]),
        (wire_done, JObj [(''done'', JBool True)]),
        (wire_done_content,
           JObj [(''message'', JObj [(''content'', JStr ''x'')]), (''done'', JBool True)])]"

section \<open>Chat endpoint (api/chat.py)\<close>

text \<open>
  \<^verbatim>\<open>save_message\<close> of \<^verbatim>\<open>supabase_service.py\<close> is the insert the README shows; the row's id
  is assigned by the database and is a parameter here.
\<close>

definition save_message ::
    "database \<Rightarrow> uuid \<Rightarrow> uuid \<Rightarrow> string \<Rightarrow> string \<Rightarrow> string option \<Rightarrow> db_error + database" where
  "save_message db new_id cid r c m =
     insert_message db \<lparr>msg_id = new_id, conversation_id = cid, role = r, content = c, model = m\<rparr>"

text \<open>
  Modelled from the spec: \<^verbatim>\<open>get_conversation_messages\<close> (the README gives its signature
  only) returns the rows of one conversation, oldest first.
\<close>

definition get_conversation_messages :: "database \<Rightarrow> uuid \<Rightarrow> message_row list" where
  "get_conversation_messages db cid = filter (\<lambda>m. conversation_id m = cid) (messages db)"

text \<open>
  What a turn does to the world, in the order in which it does it: writes to and reads
  from the datastore, the one request to the model server, and the events sent to the
  client.
\<close>

datatype client_event = ContentEvent string | DoneEvent | ErrorEvent string

datatype effect =
  DbWrite message_row
  | DbWriteFailed db_error
  | DbRead uuid
  | Dispatch string "context_entry list"
  | Send client_event

text \<open>
  Modelled from the spec: the loop of the handler that consumes the relay's fragments
  (the handler is not among the sources). Every fragment is sent as one content event
  and appended to the reply, in the order of arrival; a fragment that is not text cannot
  be appended (\<^verbatim>\<open>TypeError\<close>) and ends the loop without a reply.
\<close>

fun forward :: "json list \<Rightarrow> string \<Rightarrow> client_event list \<times> string option" where
  "forward [] full_response = ([], Some full_response)"
| "forward (JStr s # fragments) full_response =
     (let (events, r) = forward fragments (full_response @ s) in (ContentEvent s # events, r))"
| "forward (other # fragments) full_response = ([], None)"

text \<open>
  Modelled from the spec: the handler of \<^verbatim>\<open>POST /chat/stream\<close> (\<^verbatim>\<open>api/chat.py\<close>) is not
  among the sources; the README gives its steps as a sequence diagram only. The model
  follows that diagram and sections 4.3 and 7 of the specification: the user's message
  is written first, and a failed write ends the turn before anything else happens; then
  the history is read, the context is prepared, and the request is dispatched; the
  fragments the relay yields are forwarded; when the relay returns, the reply is written
  as an assistant message with the selected model and the terminal \<open>done\<close> event is
  sent; when the relay raises, or a fragment is not text, a terminal error event is sent
  and nothing is written. The processing of attachments, which precedes these steps, is
  not modelled: \<open>user_text\<close> is the content to store.
\<close>

definition chat_stream ::
    "(string \<Rightarrow> json option) \<Rightarrow> string \<Rightarrow> (string \<Rightarrow> context_entry list \<Rightarrow> string list)
      \<Rightarrow> uuid \<times> uuid \<Rightarrow> database \<Rightarrow> uuid \<Rightarrow> string \<Rightarrow> string \<Rightarrow> effect list \<times> database" where
  "chat_stream decode system_prompt model_server new_ids db cid user_text model_name =
     (case save_message db (fst new_ids) cid ''user'' user_text None of
        Inl e \<Rightarrow> ([DbWriteFailed e], db)
      | Inr db1 \<Rightarrow>
          (let user_row = \<lparr>msg_id = fst new_ids, conversation_id = cid, role = ''user'',
                           content = user_text, model = None\<rparr>;
               history = get_conversation_messages db1 cid;
               ctx = prepare_context history system_prompt;
               r = generate_response_stream decode (model_server model_name ctx);
               (events, full) = forward (yielded r) [];
               start = [DbWrite user_row, DbRead cid, Dispatch model_name ctx] @ map Send events
           in case (ended r, full) of
                (Returned, Some full_response) \<Rightarrow>
                  (case save_message db1 (snd new_ids) cid ''assistant'' full_response
                          (Some model_name) of
                     Inl e \<Rightarrow>
                       (start @ [DbWriteFailed e, Send (ErrorEvent ''reply not stored'')], db1)
                   | Inr db2 \<Rightarrow>
                       (start @ [DbWrite \<lparr>msg_id = snd new_ids, conversation_id = cid,
                                          role = ''assistant'', content = full_response,
                                          model = Some model_name\<rparr>,
                                 Send DoneEvent], db2))
              | _ \<Rightarrow> (start @ [Send (ErrorEvent ''stream failed'')], db1)))"

text \<open>The texts of the content events of a trace, in the order in which they were sent.\<close>

fun forwarded :: "effect list \<Rightarrow> string list" where
  "forwarded [] = []"
| "forwarded (Send (ContentEvent s) # trace) = s # forwarded trace"
| "forwarded (other # trace) = forwarded trace"

text \<open>The model server of the examples answers every request with the scenario's lines.\<close>

definition scenario_server :: "string \<Rightarrow> context_entry list \<Rightarrow> string list" where
  "scenario_server model_name ctx =
     [wire_the @ [CHR 0x0A], wire_end @ [CHR 0x0A], wire_done @ [CHR 0x0A]]"

text \<open>The datastore of the examples: one conversation, still untitled, without messages.\<close>

definition scenario_db :: database where
  "scenario_db =
     \<lparr>conversations = [\<lparr>conv_id = 1, user_id = 7, title = Some ''New Conversation''\<rparr>],
      messages = []\<rparr>"

section \<open>Properties of the title trigger\<close>

lemma find_map_retitle:
  "find (\<lambda>c. conv_id c = cid) (map (\<lambda>c. if P c then c\<lparr>title := t\<rparr> else c) cs) =
   map_option (\<lambda>c. if P c then c\<lparr>title := t\<rparr> else c) (find (\<lambda>c. conv_id c = cid) cs)"
  by (induction cs) auto

lemma list_ex_other_rows:
  assumes "\<not> list_ex (\<lambda>m. msg_id m = msg_id new) ms"
  shows "list_ex (\<lambda>m. conversation_id m = conversation_id new \<and> msg_id m \<noteq> msg_id new)
           (ms @ [new])
         = list_ex (\<lambda>m. conversation_id m = conversation_id new) ms"
  using assms by (auto simp: list_ex_iff)

lemma insert_message_trigger:
  assumes "insert_message db new = Inr db'"
  shows "db' = auto_generate_conversation_title (db\<lparr>messages := messages db @ [new]\<rparr>) new"
    and "\<not> list_ex (\<lambda>m. msg_id m = msg_id new) (messages db)"
    and "list_ex (\<lambda>c. conv_id c = conversation_id new) (conversations db)"
  using assms by (auto simp: insert_message_def split: if_splits)

lemma title_of_after_insert:
  assumes "insert_message db new = Inr db'"
  shows "title_of db' cid =
     (if \<not> has_messages db (conversation_id new) \<and> role new = ''user''
         \<and> cid = conversation_id new
         \<and> title_of db cid = Some (Some ''New Conversation'')
      then Some (Some (derived_title (content new)))
      else title_of db cid)"
proof -
  note t = insert_message_trigger [OF assms]
  have ex: "list_ex (\<lambda>m. conversation_id m = conversation_id new \<and> msg_id m \<noteq> msg_id new)
              (messages db @ [new]) = has_messages db (conversation_id new)"
    unfolding has_messages_def by (rule list_ex_other_rows [OF t(2)])
  show ?thesis
  proof (cases "\<not> has_messages db (conversation_id new) \<and> role new = ''user''")
    case False
    then have "db' = db\<lparr>messages := messages db @ [new]\<rparr>"
      using t(1) ex by (auto simp: auto_generate_conversation_title_def)
    then show ?thesis using False by (auto simp: title_of_def)
  next
    case True
    then have db': "conversations db' =
        map (\<lambda>c. if conv_id c = conversation_id new \<and> title c = Some ''New Conversation''
                  then c\<lparr>title := Some (derived_title (content new))\<rparr> else c)
            (conversations db)"
      using t(1) ex
      by (simp add: auto_generate_conversation_title_def derived_title_def Let_def)
    show ?thesis
    proof (cases "find (\<lambda>c. conv_id c = cid) (conversations db)")
      case None
      then show ?thesis by (simp add: title_of_def db' find_map_retitle)
    next
      case (Some c)
      then have "conv_id c = cid" by (auto simp: find_Some_iff)
      then show ?thesis using Some True
        by (auto simp: title_of_def db' find_map_retitle)
    qed
  qed
qed


lemma insert_message_succeeds:
  assumes "fits_columns new"
    and "role new \<in> set [''user'', ''assistant'', ''system'']"
    and "\<not> list_ex (\<lambda>m. msg_id m = msg_id new) (messages db)"
    and "list_ex (\<lambda>c. conv_id c = conversation_id new) (conversations db)"
  shows "insert_message db new =
           Inr (auto_generate_conversation_title (db\<lparr>messages := messages db @ [new]\<rparr>) new)"
  using assms by (simp add: insert_message_def)

lemma trigger_keeps_messages:
  "messages (auto_generate_conversation_title db new) = messages db"
  by (simp add: auto_generate_conversation_title_def Let_def)

text \<open>
  Claim C10. Let a row that fits its columns, with one of the three roles, a fresh id and
  the id of an existing conversation, be appended. Then the insert succeeds and stores
  the row as the last message. If the conversation had no message before (the new row is
  its first), the role is \<open>user\<close> and the stored title is the default
  \<open>New Conversation\<close>, the title becomes the first 50 characters of the content, followed
  by \<open>...\<close> exactly when the content has more than 50 characters. If the stored title is
  not the default, it stays as it is. If the conversation already had a message, or the
  role is not \<open>user\<close>, no title of any conversation changes; and the title of another
  conversation never changes.
\<close>

theorem auto_generate_title_on_append:
  assumes "fits_columns new"
    and "role new \<in> set [''user'', ''assistant'', ''system'']"
    and "\<not> list_ex (\<lambda>m. msg_id m = msg_id new) (messages db)"
    and "list_ex (\<lambda>c. conv_id c = conversation_id new) (conversations db)"
  shows "\<exists>db'. insert_message db new = Inr db'
       \<and> messages db' = messages db @ [new]
       \<and> (\<not> has_messages db (conversation_id new) \<and> role new = ''user''
            \<and> title_of db (conversation_id new) = Some (Some ''New Conversation'')
          \<longrightarrow> title_of db' (conversation_id new)
                = Some (Some (take 50 (content new)
                                @ (if length (content new) > 50 then ''...'' else []))))
       \<and> (title_of db (conversation_id new) \<noteq> Some (Some ''New Conversation'')
          \<longrightarrow> title_of db' (conversation_id new) = title_of db (conversation_id new))
       \<and> (has_messages db (conversation_id new)
          \<longrightarrow> (\<forall>cid. title_of db' cid = title_of db cid))
       \<and> (role new \<noteq> ''user'' \<longrightarrow> (\<forall>cid. title_of db' cid = title_of db cid))
       \<and> (\<forall>cid. cid \<noteq> conversation_id new \<longrightarrow> title_of db' cid = title_of db cid)"
proof -
  let ?db' = "auto_generate_conversation_title (db\<lparr>messages := messages db @ [new]\<rparr>) new"
  have ins: "insert_message db new = Inr ?db'"
    by (rule insert_message_succeeds [OF assms])
  have msgs: "messages ?db' = messages db @ [new]"
    by (simp add: trigger_keeps_messages)
  from title_of_after_insert [OF ins]
  have "(\<not> has_messages db (conversation_id new) \<and> role new = ''user''
            \<and> title_of db (conversation_id new) = Some (Some ''New Conversation'')
          \<longrightarrow> title_of ?db' (conversation_id new)
                = Some (Some (take 50 (content new)
                                @ (if length (content new) > 50 then ''...'' else []))))
       \<and> (title_of db (conversation_id new) \<noteq> Some (Some ''New Conversation'')
          \<longrightarrow> title_of ?db' (conversation_id new) = title_of db (conversation_id new))
       \<and> (has_messages db (conversation_id new)
          \<longrightarrow> (\<forall>cid. title_of ?db' cid = title_of db cid))
       \<and> (role new \<noteq> ''user'' \<longrightarrow> (\<forall>cid. title_of ?db' cid = title_of db cid))
       \<and> (\<forall>cid. cid \<noteq> conversation_id new \<longrightarrow> title_of ?db' cid = title_of db cid)"
    by (simp add: derived_title_def)
  with ins msgs show ?thesis by blast
qed

text \<open>
  Two appends to an untitled conversation: the first message, of 60 characters, gives
  the title; the second leaves it.
\<close>

theorem auto_generate_title_on_append_witness:
  "(\<exists>db'. insert_message
            \<lparr>conversations = [\<lparr>conv_id = 1, user_id = 7, title = Some ''New Conversation''\<rparr>],
             messages = []\<rparr>
            \<lparr>msg_id = 10, conversation_id = 1, role = ''user'',
             content = ''Please summarise the attached quarterly report for the board'',
             model = None\<rparr> = Inr db'
          \<and> messages db' =
              [\<lparr>msg_id = 10, conversation_id = 1, role = ''user'',
                content = ''Please summarise the attached quarterly report for the board'',
                model = None\<rparr>]
          \<and> title_of db' 1
              = Some (Some ''Please summarise the attached quarterly report for...''))
   \<and> (\<exists>db''. insert_message
            \<lparr>conversations =
               [\<lparr>conv_id = 1, user_id = 7,
                 title = Some ''Please summarise the attached quarterly report for...''\<rparr>],
             messages =
               [\<lparr>msg_id = 10, conversation_id = 1, role = ''user'',
                 content = ''Please summarise the attached quarterly report for the board'',
                 model = None\<rparr>]\<rparr>
            \<lparr>msg_id = 11, conversation_id = 1, role = ''user'',
             content = ''And the outlook?'', model = None\<rparr> = Inr db''
          \<and> title_of db'' 1
              = Some (Some ''Please summarise the attached quarterly report for...''))"
proof -
  let ?db = "\<lparr>conversations = [\<lparr>conv_id = 1, user_id = 7, title = Some ''New Conversation''\<rparr>],
              messages = []\<rparr>"
  let ?new = "\<lparr>msg_id = 10, conversation_id = 1, role = ''user'',
      content = ''Please summarise the attached quarterly report for the board'',
      model = None\<rparr>"
  let ?next = "\<lparr>msg_id = 11, conversation_id = 1, role = ''user'',
      content = ''And the outlook?'', model = None\<rparr>"
  let ?db1 = "\<lparr>conversations =
            [\<lparr>conv_id = 1, user_id = 7,
              title = Some ''Please summarise the attached quarterly report for...''\<rparr>],
          messages = [?new]\<rparr>"
  have a: "fits_columns ?new" "role ?new \<in> set [''user'', ''assistant'', ''system'']"
    "\<not> list_ex (\<lambda>m. msg_id m = msg_id ?new) (messages ?db)"
    "list_ex (\<lambda>c. conv_id c = conversation_id ?new) (conversations ?db)"
    by (simp_all add: fits_columns_def)
  have b: "fits_columns ?next" "role ?next \<in> set [''user'', ''assistant'', ''system'']"
    "\<not> list_ex (\<lambda>m. msg_id m = msg_id ?next) (messages ?db1)"
    "list_ex (\<lambda>c. conv_id c = conversation_id ?next) (conversations ?db1)"
    by (simp_all add: fits_columns_def)
  have first: "\<not> has_messages ?db (conversation_id ?new) \<and> role ?new = ''user''
            \<and> title_of ?db (conversation_id ?new) = Some (Some ''New Conversation'')"
    by (simp add: has_messages_def title_of_def)
  have later: "has_messages ?db1 (conversation_id ?next)"
    by (simp add: has_messages_def)
  have t1: "title_of ?db1 1 = Some (Some ''Please summarise the attached quarterly report for...'')"
    by (simp add: title_of_def)
  from auto_generate_title_on_append [OF a] first
  have 1: "\<exists>db'. insert_message ?db ?new = Inr db' \<and> messages db' = [?new]
          \<and> title_of db' 1
              = Some (Some ''Please summarise the attached quarterly report for...'')"
    by auto
  from auto_generate_title_on_append [OF b] later
  have "\<exists>db''. insert_message ?db1 ?next = Inr db'' \<and> title_of db'' 1 = title_of ?db1 1"
    by auto
  with t1 have 2: "\<exists>db''. insert_message ?db1 ?next = Inr db''
          \<and> title_of db'' 1
              = Some (Some ''Please summarise the attached quarterly report for...'')"
    by simp
  from 1 2 show ?thesis by blast
qed

section \<open>Properties of the context manager\<close>

lemma foldl_append_entries:
  "foldl (\<lambda>ctx msg. ctx @ [f msg]) acc msgs = acc @ map f msgs"
  by (induction msgs arbitrary: acc) simp_all

text \<open>
  Claim C5. The context is the system entry with the given prompt, followed by one entry
  per stored message, in the stored order, with the role and the content of that message;
  so it has one entry more than the history. The context is given as a function of the
  history and the prompt alone: equal inputs give equal contexts.
\<close>

theorem prepare_context_system_then_history:
  "prepare_context msgs system_prompt =
     \<lparr>entry_role = ''system'', entry_content = system_prompt\<rparr>
       # map (\<lambda>msg. \<lparr>entry_role = role msg, entry_content = content msg\<rparr>) msgs
   \<and> length (prepare_context msgs system_prompt) = length msgs + 1
   \<and> map entry_role (tl (prepare_context msgs system_prompt)) = map role msgs
   \<and> map entry_content (tl (prepare_context msgs system_prompt)) = map content msgs"
  by (simp add: prepare_context_def foldl_append_entries comp_def)

section \<open>Properties of the file service\<close>

subsection \<open>Thumbnail sizes\<close>

lemma round_aspect_range:
  assumes "0 < v"
  shows "1 \<le> round_aspect v key" and "real (round_aspect v key) < v + 1"
    and "v - 1 < real (round_aspect v key)" and "int (round_aspect v key) \<le> \<lceil>v\<rceil>"
proof -
  have c1: "1 \<le> \<lceil>v\<rceil>" using assms by linarith
  have f0: "0 \<le> \<lfloor>v\<rfloor>" using assms by linarith
  have fc: "\<lfloor>v\<rfloor> \<le> \<lceil>v\<rceil>" by linarith
  show "1 \<le> round_aspect v key" by (simp add: round_aspect_def)
  show "int (round_aspect v key) \<le> \<lceil>v\<rceil>"
    using c1 f0 fc by (simp add: round_aspect_def)
  show "real (round_aspect v key) < v + 1"
    using c1 f0 fc unfolding round_aspect_def
    by (auto simp: max_def split: if_splits; linarith)
  show "v - 1 < real (round_aspect v key)"
    using c1 f0 fc unfolding round_aspect_def
    by (auto simp: max_def split: if_splits; linarith)
qed

lemma round_aspect_le:
  assumes "0 < v" "v \<le> real m"
  shows "round_aspect v key \<le> m"
proof -
  have "\<lceil>v\<rceil> \<le> int m" using assms(2) by (simp add: ceiling_le_iff)
  with round_aspect_range(4) [OF assms(1), of key] show ?thesis by linarith
qed

text \<open>The box of 4000 by 4000 pixels, for an image that does not fit it.\<close>

lemma thumbnail_portrait:
  assumes "0 < width img" "width img \<le> height img" "4000 < height img"
  shows "height (thumbnail img (4000, 4000)) = 4000"
    and "width (thumbnail img (4000, 4000)) \<le> 4000"
    and "width (thumbnail img (4000, 4000)) \<le> width img"
    and "\<bar>real (width (thumbnail img (4000, 4000)))
           - 4000 * real (width img) / real (height img)\<bar> < 1"
    and "mode (thumbnail img (4000, 4000)) = mode img"
proof -
  let ?v = "4000 * (real (width img) / real (height img))"
  let ?key = "\<lambda>n. \<bar>real (width img) / real (height img) - real_of_int n / 4000\<bar>"
  have h: "0 < real (height img)" using assms by simp
  have asp: "real (width img) / real (height img) \<le> 1" using assms h by simp
  have cond: "real (width img) * 4000 / real (height img) \<le> 4000"
    using assms h by (simp add: field_simps)
  have th: "thumbnail img (4000, 4000) = img\<lparr>width := round_aspect ?v ?key, height := 4000\<rparr>"
    using assms cond by (simp add: thumbnail_def Let_def)
  have pos: "0 < ?v" using assms h by simp
  have le1: "?v \<le> real (4000::nat)" using asp by simp
  have "4000 * real (width img) \<le> real (width img) * real (height img)"
    using assms by (simp add: mult.commute mult_left_mono)
  then have le2: "?v \<le> real (width img)" using h by (simp add: pos_divide_le_eq)
  show "height (thumbnail img (4000, 4000)) = 4000" by (simp add: th)
  show "width (thumbnail img (4000, 4000)) \<le> 4000"
    using round_aspect_le [OF pos le1, of ?key] by (simp add: th)
  show "width (thumbnail img (4000, 4000)) \<le> width img"
    using round_aspect_le [OF pos le2, of ?key] by (simp add: th)
  show "\<bar>real (width (thumbnail img (4000, 4000)))
           - 4000 * real (width img) / real (height img)\<bar> < 1"
    using round_aspect_range(2,3) [OF pos, of ?key] by (simp add: th abs_less_iff)
  show "mode (thumbnail img (4000, 4000)) = mode img" by (simp add: th)
qed

lemma thumbnail_landscape:
  assumes "0 < height img" "height img < width img" "4000 < width img"
  shows "width (thumbnail img (4000, 4000)) = 4000"
    and "height (thumbnail img (4000, 4000)) \<le> 4000"
    and "height (thumbnail img (4000, 4000)) \<le> height img"
    and "\<bar>real (height (thumbnail img (4000, 4000)))
           - 4000 * real (height img) / real (width img)\<bar> < 1"
    and "mode (thumbnail img (4000, 4000)) = mode img"
proof -
  let ?a = "real (width img) / real (height img)"
  let ?v = "4000 / ?a"
  let ?key = "\<lambda>n. if n = 0 then 0 else \<bar>?a - real 4000 / real_of_int n\<bar>"
  have h: "0 < real (height img)" and w: "0 < real (width img)" using assms by simp_all
  have asp: "1 < ?a" using assms h by simp
  have th: "thumbnail img (4000, 4000) = img\<lparr>width := 4000, height := round_aspect ?v ?key\<rparr>"
    using assms asp by (simp add: thumbnail_def Let_def)
  have v: "?v = 4000 * real (height img) / real (width img)" by simp
  have pos: "0 < ?v" using h w by simp
  have "?v \<le> 4000" using asp h w by (simp add: field_simps)
  then have le1: "?v \<le> real (4000::nat)" by simp
  have "4000 * real (height img) \<le> real (height img) * real (width img)"
    using assms by (simp add: mult.commute mult_left_mono)
  then have le2: "?v \<le> real (height img)" using w unfolding v by (simp add: pos_divide_le_eq)
  show "width (thumbnail img (4000, 4000)) = 4000" by (simp add: th)
  show "height (thumbnail img (4000, 4000)) \<le> 4000"
    using round_aspect_le [OF pos le1, of ?key] by (simp add: th)
  show "height (thumbnail img (4000, 4000)) \<le> height img"
    using round_aspect_le [OF pos le2, of ?key] by (simp add: th)
  show "\<bar>real (height (thumbnail img (4000, 4000)))
           - 4000 * real (height img) / real (width img)\<bar> < 1"
    using round_aspect_range(2,3) [OF pos, of ?key] by (simp add: th abs_less_iff)
  show "mode (thumbnail img (4000, 4000)) = mode img" by (simp add: th)
qed


lemma convert_image_encodes:
  assumes "image_open file_content = Some img"
    and "convert_image_to_base64 image_open file_content filename = Inr out"
  shows "50 \<le> width img" and "50 \<le> height img"
    and "width (jpeg_image (decoded (payload_data out))) =
           width (if width img > 4000 \<or> height img > 4000
                  then thumbnail img (4000, 4000) else img)"
    and "height (jpeg_image (decoded (payload_data out))) =
           height (if width img > 4000 \<or> height img > 4000
                   then thumbnail img (4000, 4000) else img)"
    and "jpeg_quality (decoded (payload_data out)) = 95"
    and "mode (jpeg_image (decoded (payload_data out))) = ''RGB''"
    and "media_type out = ''image/jpeg''"
  using assms
  by (auto simp: convert_image_to_base64_def save_jpeg_def convert_def Let_def
           split: if_splits sum.splits)

lemma resized_bounds:
  assumes "50 \<le> width img" "50 \<le> height img"
  defines "r \<equiv> (if width img > 4000 \<or> height img > 4000
                  then thumbnail img (4000, 4000) else img)"
  shows "width r \<le> 4000 \<and> height r \<le> 4000 \<and> width r \<le> width img \<and> height r \<le> height img"
proof (cases "width img \<le> 4000 \<and> height img \<le> 4000")
  case True
  then show ?thesis by (simp add: r_def)
next
  case False
  show ?thesis
  proof (cases "width img \<le> height img")
    case True
    with False assms have a: "0 < width img" "width img \<le> height img" "4000 < height img"
      by auto
    from thumbnail_portrait(1,2,3) [OF a] a show ?thesis by (simp add: r_def)
  next
    case False
    with \<open>\<not> (width img \<le> 4000 \<and> height img \<le> 4000)\<close> assms
    have a: "0 < height img" "height img < width img" "4000 < width img" by auto
    from thumbnail_landscape(1,2,3) [OF a] a show ?thesis by (simp add: r_def)
  qed
qed

text \<open>
  Claim C6. Let the file decode to an image. If its width or its height is below 50
  pixels, the conversion fails with the size error; if both are at least 50, it never
  fails with that error. Whenever the conversion returns a payload, the encoded image is
  at most 4000 pixels wide and high and in neither dimension larger than the input
  (never upscaled); an input that fits 4000 by 4000 keeps its size, and a larger one is
  scaled so that its longer side is 4000 and its shorter side is within one pixel of the
  exact proportional length (the aspect ratio is kept up to rounding to whole pixels).
\<close>

theorem convert_image_dimensions:
  assumes "image_open file_content = Some img"
  shows "(width img < 50 \<or> height img < 50 \<longrightarrow>
            convert_image_to_base64 image_open file_content filename = Inl ImageTooSmall)
       \<and> (50 \<le> width img \<and> 50 \<le> height img \<longrightarrow>
            convert_image_to_base64 image_open file_content filename \<noteq> Inl ImageTooSmall)
       \<and> (\<forall>out. convert_image_to_base64 image_open file_content filename = Inr out \<longrightarrow>
            (let r = jpeg_image (decoded (payload_data out)) in
               width r \<le> 4000 \<and> height r \<le> 4000
             \<and> width r \<le> width img \<and> height r \<le> height img
             \<and> (width img \<le> 4000 \<and> height img \<le> 4000 \<longrightarrow>
                  width r = width img \<and> height r = height img)
             \<and> (4000 < height img \<and> width img \<le> height img \<longrightarrow>
                  height r = 4000
                  \<and> \<bar>real (width r) - 4000 * real (width img) / real (height img)\<bar> < 1)
             \<and> (4000 < width img \<and> height img < width img \<longrightarrow>
                  width r = 4000
                  \<and> \<bar>real (height r) - 4000 * real (height img) / real (width img)\<bar> < 1)))"
proof (intro conjI impI allI)
  assume "width img < 50 \<or> height img < 50"
  then show "convert_image_to_base64 image_open file_content filename = Inl ImageTooSmall"
    using assms by (simp add: convert_image_to_base64_def)
next
  assume "50 \<le> width img \<and> 50 \<le> height img"
  then show "convert_image_to_base64 image_open file_content filename \<noteq> Inl ImageTooSmall"
    using assms
    by (auto simp: convert_image_to_base64_def save_jpeg_def Let_def split: sum.splits)
next
  fix out
  assume out: "convert_image_to_base64 image_open file_content filename = Inr out"
  note e = convert_image_encodes [OF assms out]
  let ?r = "jpeg_image (decoded (payload_data out))"
  have b: "width ?r \<le> 4000 \<and> height ?r \<le> 4000 \<and> width ?r \<le> width img \<and> height ?r \<le> height img"
    using resized_bounds [OF e(1,2)] unfolding e(3,4) .
  have same: "width img \<le> 4000 \<and> height img \<le> 4000 \<longrightarrow>
                width ?r = width img \<and> height ?r = height img"
    by (simp add: e(3,4))
  have portrait: "4000 < height img \<and> width img \<le> height img \<longrightarrow>
      height ?r = 4000
      \<and> \<bar>real (width ?r) - 4000 * real (width img) / real (height img)\<bar> < 1"
  proof
    assume "4000 < height img \<and> width img \<le> height img"
    with e(1) have a: "0 < width img" "width img \<le> height img" "4000 < height img" by auto
    from thumbnail_portrait(1,4) [OF a] a show "height ?r = 4000
      \<and> \<bar>real (width ?r) - 4000 * real (width img) / real (height img)\<bar> < 1"
      by (simp add: e(3,4))
  qed
  have landscape: "4000 < width img \<and> height img < width img \<longrightarrow>
      width ?r = 4000
      \<and> \<bar>real (height ?r) - 4000 * real (height img) / real (width img)\<bar> < 1"
  proof
    assume "4000 < width img \<and> height img < width img"
    with e(2) have a: "0 < height img" "height img < width img" "4000 < width img" by auto
    from thumbnail_landscape(1,4) [OF a] a show "width ?r = 4000
      \<and> \<bar>real (height ?r) - 4000 * real (height img) / real (width img)\<bar> < 1"
      by (simp add: e(3,4))
  qed
  show "let r = ?r in
               width r \<le> 4000 \<and> height r \<le> 4000
             \<and> width r \<le> width img \<and> height r \<le> height img
             \<and> (width img \<le> 4000 \<and> height img \<le> 4000 \<longrightarrow>
                  width r = width img \<and> height r = height img)
             \<and> (4000 < height img \<and> width img \<le> height img \<longrightarrow>
                  height r = 4000
                  \<and> \<bar>real (width r) - 4000 * real (width img) / real (height img)\<bar> < 1)
             \<and> (4000 < width img \<and> height img < width img \<longrightarrow>
                  width r = 4000
                  \<and> \<bar>real (height r) - 4000 * real (height img) / real (width img)\<bar> < 1)"
    unfolding Let_def using b same portrait landscape by blast
qed

theorem convert_image_dimensions_witness:
  "convert_image_to_base64 Some \<lparr>width = 40, height = 40, mode = ''RGB''\<rparr> ''icon.png''
     = Inl ImageTooSmall
   \<and> convert_image_to_base64 Some \<lparr>width = 6000, height = 3000, mode = ''P''\<rparr> ''scan.png''
     \<noteq> Inl ImageTooSmall
   \<and> convert_image_to_base64 Some \<lparr>width = 6000, height = 3000, mode = ''P''\<rparr> ''scan.png''
     = Inr \<lparr>payload_type = ''image'', media_type = ''image/jpeg'',
            payload_data = Base64 (Jpeg \<lparr>width = 4000, height = 2000, mode = ''RGB''\<rparr> 95)\<rparr>
   \<and> width \<lparr>width = 4000, height = 2000, mode = ''RGB''\<rparr> \<le> 4000
   \<and> height \<lparr>width = 4000, height = 2000, mode = ''RGB''\<rparr> \<le> 3000"
proof -
  let ?small = "\<lparr>width = 40, height = 40, mode = ''RGB''\<rparr>"
  let ?big = "\<lparr>width = 6000, height = 3000, mode = ''P''\<rparr>"
  let ?out = "\<lparr>payload_type = ''image'', media_type = ''image/jpeg'',
            payload_data = Base64 (Jpeg \<lparr>width = 4000, height = 2000, mode = ''RGB''\<rparr> 95)\<rparr>"
  have small: "Some ?small = Some ?small" and big: "Some ?big = Some ?big" by simp_all
  have run: "convert_image_to_base64 Some ?big ''scan.png'' = Inr ?out"
    by (simp add: convert_image_to_base64_def thumbnail_def round_aspect_def save_jpeg_def
          convert_def Let_def)
  from convert_image_dimensions [of Some ?small ?small "''icon.png''", OF small]
  have 1: "convert_image_to_base64 Some ?small ''icon.png'' = Inl ImageTooSmall" by simp
  from convert_image_dimensions [of Some ?big ?big "''scan.png''", OF big]
  have 2: "convert_image_to_base64 Some ?big ''scan.png'' \<noteq> Inl ImageTooSmall"
    and 3: "\<forall>out. convert_image_to_base64 Some ?big ''scan.png'' = Inr out \<longrightarrow>
              width (jpeg_image (decoded (payload_data out))) \<le> 4000
              \<and> height (jpeg_image (decoded (payload_data out))) \<le> height ?big"
    by (simp_all add: Let_def)
  from 3 run have "width (jpeg_image (decoded (payload_data ?out))) \<le> 4000
      \<and> height (jpeg_image (decoded (payload_data ?out))) \<le> height ?big" by blast
  with 1 2 run show ?thesis by simp
qed

text \<open>
  Claim C7. The claim asks that an accepted image of any colour mode is converted to RGB
  and encoded as a JPEG of quality 95. The function leaves the mode \<open>RGBA\<close> as it is,
  and the JPEG writer refuses that mode: an accepted 100 by 100 image with an alpha
  channel yields an error instead of a payload.
\<close>

theorem convert_image_rgba_not_encoded:
  "convert_image_to_base64 Some \<lparr>width = 100, height = 100, mode = ''RGBA''\<rparr> ''logo.png''
     = Inl (CannotWriteMode ''RGBA'')"
  by (simp add: convert_image_to_base64_def save_jpeg_def convert_def Let_def)

text \<open>Every accepted image of another mode is encoded, in mode \<open>RGB\<close>, at quality 95.\<close>

lemma convert_image_other_modes:
  assumes "image_open file_content = Some img" "50 \<le> width img" "50 \<le> height img"
    and "mode img \<noteq> ''RGBA''"
  shows "\<exists>out. convert_image_to_base64 image_open file_content filename = Inr out
           \<and> mode (jpeg_image (decoded (payload_data out))) = ''RGB''
           \<and> jpeg_quality (decoded (payload_data out)) = 95
           \<and> media_type out = ''image/jpeg''"
proof -
  have m: "mode (if width img > 4000 \<or> height img > 4000
                 then thumbnail img (4000, 4000) else img) = mode img"
    by (simp add: thumbnail_def Let_def)
  show ?thesis
    using assms m
    by (simp add: convert_image_to_base64_def save_jpeg_def convert_def Let_def linorder_not_less)
qed

subsection \<open>Decimal numerals and occurrences of a pattern\<close>

lemma digit_char_in: "d < 10 \<Longrightarrow> digit_char d \<in> set ''0123456789''"
  unfolding digit_char_def by (rule nth_mem) simp

lemma digit_char_inj:
  assumes "a < 10" "b < 10" "digit_char a = digit_char b"
  shows "a = b"
proof -
  have d: "distinct ''0123456789''" by simp
  have l: "length ''0123456789'' = 10" by simp
  from assms show ?thesis
    unfolding digit_char_def using nth_eq_iff_index_eq [OF d, of a b] l by simp
qed

lemma str_nat_not_Nil: "str_nat n \<noteq> []"
  by (subst str_nat.simps) simp

lemma str_nat_digits: "set (str_nat n) \<subseteq> set ''0123456789''"
proof (induction n rule: str_nat.induct)
  case (1 n)
  show ?case
  proof (cases "n < 10")
    case True
    then show ?thesis using digit_char_in [of n] by (subst str_nat.simps) simp
  next
    case False
    have "n mod 10 < 10" by simp
    from digit_char_in [OF this] 1 [OF False] False show ?thesis
      by (subst str_nat.simps) simp
  qed
qed

lemma str_nat_inj: "str_nat m = str_nat n \<Longrightarrow> m = n"
proof (induction m arbitrary: n rule: str_nat.induct)
  case (1 m)
  show ?case
  proof (cases "m < 10")
    case m: True
    show ?thesis
    proof (cases "n < 10")
      case True
      with m 1(2) show ?thesis
        by (simp add: str_nat.simps [of m] str_nat.simps [of n] digit_char_inj)
    next
      case False
      with m 1(2) str_nat_not_Nil [of "n div 10"] show ?thesis
        by (simp add: str_nat.simps [of m] str_nat.simps [of n])
    qed
  next
    case m: False
    show ?thesis
    proof (cases "n < 10")
      case True
      with m 1(2) str_nat_not_Nil [of "m div 10"] show ?thesis
        by (simp add: str_nat.simps [of m] str_nat.simps [of n])
    next
      case False
      with m 1(2) have e: "str_nat (m div 10) = str_nat (n div 10)"
        and d: "digit_char (m mod 10) = digit_char (n mod 10)"
        by (simp_all add: str_nat.simps [of m] str_nat.simps [of n])
      from 1(1) [OF m e] have "m div 10 = n div 10" .
      moreover from d have "m mod 10 = n mod 10" by (intro digit_char_inj) simp_all
      ultimately show ?thesis by (metis div_mult_mod_eq)
    qed
  qed
qed


lemma occurrences_Cons_other:
  "p \<noteq> [] \<Longrightarrow> c \<noteq> hd p \<Longrightarrow> occurrences p (c # s) = occurrences p s"
  by (cases p) simp_all

lemma occurrences_skip:
  "p \<noteq> [] \<Longrightarrow> hd p \<notin> set a \<Longrightarrow> occurrences p (a @ b) = occurrences p b"
  by (induction a) (auto simp: occurrences_Cons_other simp del: occurrences.simps)

lemma occurrences_Nil: "p \<noteq> [] \<Longrightarrow> occurrences p [] = 0"
  by simp

lemma prefix_across_separator:
  assumes "c \<notin> set p"
  shows "prefix p (a @ c # b) = prefix p a"
proof
  assume "prefix p (a @ c # b)"
  then consider "prefix p a" | us where "p = a @ us" "prefix us (c # b)"
    by (auto simp: prefix_append)
  then show "prefix p a"
  proof cases
    case 1
    then show ?thesis .
  next
    case 2
    with assms have "us = []" by (cases us) auto
    with 2 show ?thesis by simp
  qed
next
  assume "prefix p a"
  then show "prefix p (a @ c # b)" by (simp add: prefix_append)
qed

lemma occurrences_separator:
  assumes "p \<noteq> []" "c \<notin> set p"
  shows "occurrences p (a @ c # b) = occurrences p a + occurrences p b"
proof (induction a)
  case Nil
  from assms have "c \<noteq> hd p" by (cases p) auto
  with assms(1) show ?case by (simp add: occurrences_Cons_other del: occurrences.simps(2))
next
  case (Cons x a)
  have "prefix p ((x # a) @ c # b) = prefix p (x # a)"
    by (rule prefix_across_separator [OF assms(2)])
  with Cons show ?case by simp
qed

lemma occurrences_snoc_other:
  assumes "p \<noteq> []" "c \<noteq> last p"
  shows "occurrences p (s @ [c]) = occurrences p s"
proof (induction s)
  case Nil
  show ?case
  proof (cases "prefix p [c]")
    case True
    with assms(1) have "p = [c]" by (cases p) auto
    with assms(2) show ?thesis by simp
  next
    case False
    with assms(1) show ?thesis by simp
  qed
next
  case (Cons x s)
  have "prefix p (x # s @ [c]) = prefix p (x # s)"
  proof
    assume "prefix p (x # s @ [c])"
    then have "prefix p ((x # s) @ [c])" by simp
    then consider "prefix p (x # s)" | us where "p = (x # s) @ us" "prefix us [c]"
      unfolding prefix_append by blast
    then show "prefix p (x # s)"
    proof cases
      case 1
      then show ?thesis .
    next
      case 2
      from 2(2) have "us = [] \<or> us = [c]" by (cases us) auto
      with 2(1) assms(2) show ?thesis by auto
    qed
  next
    assume "prefix p (x # s)"
    then have "prefix p ((x # s) @ [c])" by (simp only: prefix_append) simp
    then show "prefix p (x # s @ [c])" by simp
  qed
  with Cons show ?case by simp
qed

lemma occurrences_dropWhile:
  "p \<noteq> [] \<Longrightarrow> \<not> P (hd p) \<Longrightarrow> occurrences p (dropWhile P s) = occurrences p s"
proof (induction s)
  case Nil
  show ?case by simp
next
  case (Cons x s)
  show ?case
  proof (cases "P x")
    case True
    with Cons.prems have "x \<noteq> hd p" by auto
    with Cons True show ?thesis
      by (simp add: occurrences_Cons_other del: occurrences.simps)
  next
    case False
    then show ?thesis by simp
  qed
qed

lemma occurrences_dropWhile_end:
  "p \<noteq> [] \<Longrightarrow> \<not> P (last p) \<Longrightarrow>
     occurrences p (rev (dropWhile P (rev s))) = occurrences p s"
proof (induction s rule: rev_induct)
  case Nil
  show ?case by simp
next
  case (snoc x s)
  show ?case
  proof (cases "P x")
    case True
    with snoc.prems have "x \<noteq> last p" by auto
    with snoc True show ?thesis by (simp add: occurrences_snoc_other)
  next
    case False
    then show ?thesis by simp
  qed
qed

lemma occurrences_strip:
  assumes "p \<noteq> []" "\<not> isspace (hd p)" "\<not> isspace (last p)"
  shows "occurrences p (strip s) = occurrences p s"
  unfolding strip_def
  using occurrences_dropWhile_end [of p isspace] occurrences_dropWhile [of p isspace] assms
  by simp


lemma str_nat_chars:
  "CHR ''-'' \<notin> set (str_nat n)" "CHR '' '' \<notin> set (str_nat n)" "CHR 0x0A \<notin> set (str_nat n)"
  using str_nat_digits [of n] by auto

lemma page_marker_shape:
  "page_marker k \<noteq> []" "hd (page_marker k) = CHR ''-''" "last (page_marker k) = CHR ''-''"
  "CHR 0x0A \<notin> set (page_marker k)"
  "\<not> isspace (hd (page_marker k))" "\<not> isspace (last (page_marker k))"
  using str_nat_chars(3) [of k] by (simp_all add: page_marker_def isspace_def)

lemma prefix_numeral_same:
  assumes "c \<notin> set a" "c \<notin> set b" "prefix (a @ c # r) (b @ c # r')"
  shows "a = b"
  using assms
proof (induction a arbitrary: b)
  case Nil
  then show ?case by (cases b) auto
next
  case (Cons x a)
  then show ?case by (cases b) auto
qed

lemma prefix_marker_tail:
  "prefix (str_nat k @ '' ---'') (str_nat j @ '' ---'') = (k = j)"
proof
  assume "prefix (str_nat k @ '' ---'') (str_nat j @ '' ---'')"
  then have "prefix (str_nat k @ CHR '' '' # ''---'') (str_nat j @ CHR '' '' # ''---'')"
    by simp
  from prefix_numeral_same [OF str_nat_chars(2) str_nat_chars(2) this]
  show "k = j" by (rule str_nat_inj)
next
  assume "k = j"
  then show "prefix (str_nat k @ '' ---'') (str_nat j @ '' ---'')" by simp
qed

lemma occurrences_marker_tail: "occurrences (page_marker k) (str_nat j @ '' ---'') = 0"
proof -
  have "hd (page_marker k) \<notin> set (str_nat j)"
    using str_nat_chars(1) [of j] by (simp add: page_marker_shape)
  from occurrences_skip [OF page_marker_shape(1) this]
  have "occurrences (page_marker k) (str_nat j @ '' ---'')
          = occurrences (page_marker k) '' ---''" .
  also have "\<dots> = 0" by (simp add: page_marker_def)
  finally show ?thesis .
qed

lemma occurrences_marker_marker:
  "occurrences (page_marker k) (page_marker j) = (if k = j then 1 else 0)"
proof -
  have "occurrences (page_marker k) (page_marker j)
          = (if prefix (str_nat k @ '' ---'') (str_nat j @ '' ---'') then 1 else 0)
            + occurrences (page_marker k) (str_nat j @ '' ---'')"
    by (simp add: page_marker_def [of j]) (simp add: page_marker_def)
  then show ?thesis by (simp add: prefix_marker_tail occurrences_marker_tail)
qed


lemma extract_loop_step:
  "extract_loop n (page # pages) acc =
     extract_loop (Suc n) pages (acc @ CHR 0x0A # page_marker (Suc n) @ CHR 0x0A # page)"
  by (simp add: page_marker_def)

lemma occurrences_extract_loop:
  assumes "\<forall>t \<in> set pages. occurrences (page_marker k) t = 0"
  shows "occurrences (page_marker k) (extract_loop n pages acc)
           = occurrences (page_marker k) acc
             + (if n < k \<and> k \<le> n + length pages then 1 else 0)"
  using assms
proof (induction pages arbitrary: n acc)
  case Nil
  show ?case by simp
next
  case (Cons page pages)
  note sep = occurrences_separator [OF page_marker_shape(1) page_marker_shape(4)]
  have "occurrences (page_marker k)
          (acc @ CHR 0x0A # page_marker (Suc n) @ CHR 0x0A # page)
        = occurrences (page_marker k) acc + (if k = Suc n then 1 else 0)"
    using Cons.prems by (simp add: sep occurrences_marker_marker)
  moreover have "occurrences (page_marker k)
          (extract_loop (Suc n) pages (acc @ CHR 0x0A # page_marker (Suc n) @ CHR 0x0A # page))
        = occurrences (page_marker k)
            (acc @ CHR 0x0A # page_marker (Suc n) @ CHR 0x0A # page)
          + (if Suc n < k \<and> k \<le> Suc n + length pages then 1 else 0)"
    using Cons.prems by (intro Cons.IH) simp
  ultimately show ?case
    unfolding extract_loop_step by auto
qed

lemma occurrences_extract_text:
  assumes "\<forall>t \<in> set pages. occurrences (page_marker k) t = 0"
  shows "occurrences (page_marker k) (extract_text_from_pdf pages)
           = (if 1 \<le> k \<and> k \<le> length pages then 1 else 0)"
proof -
  have "occurrences (page_marker k) (extract_text_from_pdf pages)
          = occurrences (page_marker k) (extract_loop 0 pages [])"
    unfolding extract_text_from_pdf_def
    by (rule occurrences_strip) (rule page_marker_shape)+
  also have "\<dots> = (if 1 \<le> k \<and> k \<le> length pages then 1 else 0)"
    using occurrences_extract_loop [OF assms, of 0 "[]"] page_marker_shape(1) [of k]
    by (auto simp: Suc_le_eq)
  finally show ?thesis .
qed

lemma extract_loop_text: "extract_loop n pages acc = acc @ extract_loop n pages []"
proof (induction pages arbitrary: n acc)
  case Nil
  show ?case by simp
next
  case (Cons page pages)
  show ?case
    unfolding extract_loop_step
    by (subst Cons.IH) (subst (2) Cons.IH, simp)
qed

lemma extract_loop_append:
  "extract_loop n (ps @ qs) acc = extract_loop (n + length ps) qs (extract_loop n ps acc)"
  by (induction ps arbitrary: n acc) (simp_all del: extract_loop.simps(2) add: extract_loop_step)

lemma extract_loop_marker_at:
  assumes "k < length pages"
  shows "\<exists>a c. extract_loop n pages [] = a @ CHR 0x0A # page_marker (Suc (n + k)) @ CHR 0x0A # c
            \<and> a = extract_loop n (take k pages) []
            \<and> c = pages ! k @ extract_loop (Suc (n + k)) (drop (Suc k) pages) []"
proof -
  have "pages = take k pages @ pages ! k # drop (Suc k) pages"
    using assms by (simp add: id_take_nth_drop)
  then have "extract_loop n pages [] =
      extract_loop (n + length (take k pages)) (pages ! k # drop (Suc k) pages)
        (extract_loop n (take k pages) [])"
    using extract_loop_append [of n "take k pages" "pages ! k # drop (Suc k) pages" "[]"]
    by simp
  also have "n + length (take k pages) = n + k" using assms by simp
  also have "extract_loop (n + k) (pages ! k # drop (Suc k) pages)
        (extract_loop n (take k pages) []) =
      (extract_loop n (take k pages) [] @ CHR 0x0A # page_marker (Suc (n + k))
         @ CHR 0x0A # pages ! k) @ extract_loop (Suc (n + k)) (drop (Suc k) pages) []"
    unfolding extract_loop_step by (subst extract_loop_text) simp
  finally show ?thesis by simp
qed


lemma dropWhile_before:
  "y \<noteq> [] \<Longrightarrow> \<not> P (hd y) \<Longrightarrow> dropWhile P (a @ y) = dropWhile P a @ y"
  by (induction a) (auto simp: neq_Nil_conv)

lemma strip_between:
  assumes "m1 \<noteq> []" "\<not> isspace (hd m1)" "m2 \<noteq> []" "\<not> isspace (last m2)"
  shows "strip (a @ m1 @ b @ m2 @ c)
           = dropWhile isspace a @ m1 @ b @ m2 @ rev (dropWhile isspace (rev c))"
proof -
  have front: "dropWhile isspace (a @ m1 @ b @ m2 @ c) = dropWhile isspace a @ m1 @ b @ m2 @ c"
    using dropWhile_before [of "m1 @ b @ m2 @ c" isspace a] assms(1,2) by simp
  have "rev (dropWhile isspace a @ m1 @ b @ m2 @ c)
          = rev c @ (rev m2 @ rev b @ rev m1 @ rev (dropWhile isspace a))"
    by simp
  moreover have "dropWhile isspace (rev c @ (rev m2 @ rev b @ rev m1 @ rev (dropWhile isspace a)))
          = dropWhile isspace (rev c) @ (rev m2 @ rev b @ rev m1 @ rev (dropWhile isspace a))"
    using dropWhile_before [of "rev m2 @ rev b @ rev m1 @ rev (dropWhile isspace a)" isspace "rev c"]
      assms(3,4) by (simp add: hd_rev)
  ultimately show ?thesis
    unfolding strip_def front by simp
qed

lemma markers_in_order:
  assumes "1 \<le> j" "j < k" "k \<le> length pages"
  shows "\<exists>a b c. extract_text_from_pdf pages = a @ page_marker j @ b @ page_marker k @ c"
proof -
  from assms have k: "k - 1 < length pages" by simp
  from extract_loop_marker_at [OF k, of 0] assms obtain c where
    raw: "extract_loop 0 pages [] =
            extract_loop 0 (take (k - 1) pages) [] @ CHR 0x0A # page_marker k @ CHR 0x0A # c"
    by auto
  from assms have j: "j - 1 < length (take (k - 1) pages)" by simp
  from extract_loop_marker_at [OF j, of 0] assms obtain a b where
    pre: "extract_loop 0 (take (k - 1) pages) [] = a @ CHR 0x0A # page_marker j @ CHR 0x0A # b"
    by auto
  define a' b' c' where "a' = a @ [CHR 0x0A]" and "b' = CHR 0x0A # b @ [CHR 0x0A]"
    and "c' = CHR 0x0A # c"
  have "extract_loop 0 pages [] = a' @ page_marker j @ b' @ page_marker k @ c'"
    unfolding raw pre a'_def b'_def c'_def by simp
  then have "extract_text_from_pdf pages =
      dropWhile isspace a' @ page_marker j @ b' @ page_marker k
        @ rev (dropWhile isspace (rev c'))"
    unfolding extract_text_from_pdf_def
    by (simp only: strip_between [OF page_marker_shape(1,5) page_marker_shape(1,6)])
  then show ?thesis by blast
qed

text \<open>
  Claim C8, as amended. Let no page's own text contain a page-boundary marker. Then the
  extracted text of a document of \<open>N\<close> pages contains the marker \<open>--- Page k ---\<close> exactly
  once for each \<open>k\<close> from 1 to \<open>N\<close> and no marker of another number, and for \<open>j < k\<close> the
  marker of page \<open>j\<close> stands before the marker of page \<open>k\<close>.
\<close>

theorem pdf_markers_once_in_order:
  assumes "\<forall>t \<in> set pages. \<forall>k. occurrences (page_marker k) t = 0"
  shows "(\<forall>k. occurrences (page_marker k) (extract_text_from_pdf pages)
               = (if 1 \<le> k \<and> k \<le> length pages then 1 else 0))
       \<and> (\<forall>j k. 1 \<le> j \<and> j < k \<and> k \<le> length pages \<longrightarrow>
             (\<exists>a b c. extract_text_from_pdf pages
                        = a @ page_marker j @ b @ page_marker k @ c))"
  using assms occurrences_extract_text markers_in_order by blast

theorem pdf_markers_once_in_order_witness:
  "occurrences (page_marker 1) (extract_text_from_pdf [''Hello'', '''', ''World  '']) = 1
   \<and> occurrences (page_marker 2) (extract_text_from_pdf [''Hello'', '''', ''World  '']) = 1
   \<and> occurrences (page_marker 3) (extract_text_from_pdf [''Hello'', '''', ''World  '']) = 1
   \<and> occurrences (page_marker 4) (extract_text_from_pdf [''Hello'', '''', ''World  '']) = 0
   \<and> (\<exists>a b c. extract_text_from_pdf [''Hello'', '''', ''World  '']
                 = a @ page_marker 1 @ b @ page_marker 3 @ c)"
proof -
  have clean: "\<forall>t \<in> set [''Hello'', '''', ''World  '']. \<forall>k. occurrences (page_marker k) t = 0"
    by (simp add: page_marker_def)
  from pdf_markers_once_in_order [OF clean]
  have n: "\<And>k. occurrences (page_marker k) (extract_text_from_pdf [''Hello'', '''', ''World  ''])
             = (if 1 \<le> k \<and> k \<le> length [''Hello'', '''', ''World  ''] then 1 else 0)"
    and o: "\<And>j k. 1 \<le> j \<and> j < k \<and> k \<le> length [''Hello'', '''', ''World  ''] \<Longrightarrow>
             \<exists>a b c. extract_text_from_pdf [''Hello'', '''', ''World  '']
                        = a @ page_marker j @ b @ page_marker k @ c"
    by blast+
  have "\<exists>a b c. extract_text_from_pdf [''Hello'', '''', ''World  '']
                 = a @ page_marker 1 @ b @ page_marker 3 @ c"
    by (rule o) simp
  then show ?thesis using n [of 1] n [of 2] n [of 3] n [of 4] by simp
qed

text \<open>
  The claim as stated fails where a page's text is itself a marker: the marker of page 1
  then occurs twice.
\<close>

theorem pdf_marker_twice_counterexample:
  "occurrences (page_marker 1) (extract_text_from_pdf [''--- Page 1 ---'']) = 2"
  by (simp add: extract_text_from_pdf_def strip_def isspace_def str_nat.simps digit_char_def
        page_marker_def)

subsection \<open>Documents without text\<close>

lemma strip_core:
  assumes "core \<noteq> []" "\<not> isspace (hd core)" "\<not> isspace (last core)"
    and "\<forall>c \<in> set a. isspace c" "\<forall>c \<in> set b. isspace c"
  shows "strip (a @ core @ b) = core"
proof -
  have a: "dropWhile isspace a = []" using assms(4) by simp
  have b: "dropWhile isspace (rev b) = []" using assms(5) by simp
  have "dropWhile isspace (a @ core @ b) = core @ b"
    using dropWhile_before [of "core @ b" isspace a] assms(1,2) a by simp
  moreover have "dropWhile isspace (rev b @ rev core) = rev core"
    using dropWhile_before [of "rev core" isspace "rev b"] assms(1,3) b by (simp add: hd_rev)
  ultimately show ?thesis by (simp add: strip_def)
qed

lemma extract_loop_replicate:
  "extract_loop n (replicate m []) acc =
     acc @ concat (map (\<lambda>k. CHR 0x0A # page_marker k @ [CHR 0x0A]) [Suc n..<Suc n + m])"
proof (induction m arbitrary: n acc)
  case 0
  show ?case by simp
next
  case (Suc m)
  have "extract_loop n (replicate (Suc m) []) acc =
      extract_loop (Suc n) (replicate m []) (acc @ CHR 0x0A # page_marker (Suc n) @ [CHR 0x0A])"
    by (simp only: replicate.simps extract_loop_step)
  also have "\<dots> = (acc @ CHR 0x0A # page_marker (Suc n) @ [CHR 0x0A])
      @ concat (map (\<lambda>k. CHR 0x0A # page_marker k @ [CHR 0x0A]) [Suc (Suc n)..<Suc (Suc n) + m])"
    by (rule Suc.IH)
  also have "\<dots> = acc
      @ concat (map (\<lambda>k. CHR 0x0A # page_marker k @ [CHR 0x0A]) [Suc n..<Suc n + Suc m])"
    by (simp add: upt_conv_Cons del: upt_Suc)
  finally show ?case .
qed

lemma concat_lines:
  "concat (map (\<lambda>k. c # g k @ [c]) (a # ks)) =
     c # (g a @ concat (map (\<lambda>k. [c, c] @ g k) ks)) @ [c]"
  by (induction ks arbitrary: a) simp_all

lemma extract_loop_blank_pages:
  "extract_loop n (replicate (Suc m) []) [] =
     CHR 0x0A # (page_marker (Suc n)
        @ concat (map (\<lambda>k. [CHR 0x0A, CHR 0x0A] @ page_marker k) [Suc (Suc n)..<Suc (Suc n) + m]))
     @ [CHR 0x0A]"
proof -
  have "[Suc n..<Suc n + Suc m] = Suc n # [Suc (Suc n)..<Suc (Suc n) + m]"
    by (simp add: upt_conv_Cons del: upt_Suc)
  then show ?thesis
    by (simp only: extract_loop_replicate concat_lines append_Nil)
qed

lemma last_marker_lines:
  "last (page_marker a @ concat (map (\<lambda>k. [c, c] @ page_marker k) ks)) = CHR ''-''"
proof (induction ks arbitrary: a)
  case Nil
  show ?case by (simp add: page_marker_shape)
next
  case (Cons k ks)
  have "page_marker a @ concat (map (\<lambda>k. [c, c] @ page_marker k) (k # ks)) =
      (page_marker a @ [c, c]) @ (page_marker k @ concat (map (\<lambda>k. [c, c] @ page_marker k) ks))"
    by simp
  moreover have "page_marker k @ concat (map (\<lambda>k. [c, c] @ page_marker k) ks) \<noteq> []"
    by (simp add: page_marker_shape)
  ultimately show ?case using Cons.IH [of k] by (simp only: last_append if_False)
qed

text \<open>
  Claim C9, as amended. For a document of \<open>n\<close> pages none of which has any extractable
  text, the extraction returns a text (the model has no failing case): the markers of the
  pages 1 to \<open>n\<close>, separated by blank lines. That text is empty exactly when the document
  has no page.
\<close>

theorem pdf_without_text:
  "extract_text_from_pdf (replicate n []) =
     (case n of 0 \<Rightarrow> []
      | Suc m \<Rightarrow> page_marker 1
          @ concat (map (\<lambda>k. [CHR 0x0A, CHR 0x0A] @ page_marker k) [2..<Suc n]))
   \<and> (extract_text_from_pdf (replicate n []) = [] \<longleftrightarrow> n = 0)"
proof (cases n)
  case 0
  then show ?thesis by (simp add: extract_text_from_pdf_def strip_def)
next
  case (Suc m)
  let ?core = "page_marker 1
      @ concat (map (\<lambda>k. [CHR 0x0A, CHR 0x0A] @ page_marker k) [2..<Suc n])"
  have raw: "extract_loop 0 (replicate n []) [] = [CHR 0x0A] @ ?core @ [CHR 0x0A]"
    using extract_loop_blank_pages [of 0 m] Suc by (simp add: numeral_2_eq_2)
  have ne: "?core \<noteq> []" by (simp add: page_marker_shape)
  have h: "hd ?core = CHR ''-''" by (simp add: page_marker_shape)
  have l: "last ?core = CHR ''-''" by (rule last_marker_lines)
  have dash: "\<not> isspace CHR ''-''" and nl: "\<forall>c \<in> set [CHR 0x0A]. isspace c"
    by (simp_all add: isspace_def)
  have "strip ([CHR 0x0A] @ ?core @ [CHR 0x0A]) = ?core"
    using ne dash nl by (intro strip_core) (simp_all only: h l not_False_eq_True)
  then have "extract_text_from_pdf (replicate n []) = ?core"
    by (simp only: extract_text_from_pdf_def raw)
  then show ?thesis using ne Suc by simp
qed

text \<open>A single page without text gives its marker, not the empty string.\<close>

theorem pdf_without_text_counterexample:
  "extract_text_from_pdf [[]] = ''--- Page 1 ---'' \<and> extract_text_from_pdf [[]] \<noteq> []"
  by (simp add: extract_text_from_pdf_def strip_def isspace_def str_nat.simps digit_char_def)

section \<open>Properties of the model relay\<close>

lemma loop_body_done:
  assumes "line_done decode l"
  shows "loop_body decode l = Break"
  using assms
  by (auto simp: line_done_def line_object_def loop_body_def
           split: sum.splits json.splits option.splits)

lemma loop_body_blank:
  assumes "blank_line l"
  shows "loop_body decode l = Raise JSONDecodeError"
  using assms by (simp add: blank_line_def loop_body_def json_loads_def)

lemma loop_body_processable:
  assumes "line_processable decode l" "\<not> line_done decode l"
  shows "loop_body decode l = (case line_fragment decode l of Some c \<Rightarrow> Yield c | None \<Rightarrow> Next)"
  using assms
  by (auto simp: line_processable_def line_done_def line_object_def line_fragment_def
                 line_content_def loop_body_def
           split: sum.splits json.splits option.splits)

lemma loop_body_unprocessable:
  assumes "\<not> line_processable decode l" "\<not> line_done decode l"
  shows "\<exists>e. loop_body decode l = Raise e"
  using assms
  by (auto simp: line_processable_def line_done_def line_object_def loop_body_def
           split: sum.splits json.splits option.splits)


lemma stream_loop_prefix:
  assumes "list_all (\<lambda>l. line_processable decode l \<and> \<not> line_done decode l) pre"
  shows "stream_loop decode (pre @ rest) =
           (let r = stream_loop decode rest
            in r\<lparr>yielded := List.map_filter (line_fragment decode) pre @ yielded r\<rparr>)"
  using assms
proof (induction pre)
  case Nil
  show ?case by (simp add: List.map_filter_simps)
next
  case (Cons l pre)
  then have l: "line_processable decode l" "\<not> line_done decode l"
    and pre: "list_all (\<lambda>l. line_processable decode l \<and> \<not> line_done decode l) pre"
    by simp_all
  show ?case
    using loop_body_processable [OF l] Cons.IH [OF pre]
    by (cases "line_fragment decode l") (simp_all add: List.map_filter_simps Let_def)
qed

lemma stream_loop_yielded:
  "yielded (stream_loop decode lines) =
     List.map_filter (line_fragment decode)
       (takeWhile (\<lambda>l. line_processable decode l \<and> \<not> line_done decode l) lines)"
proof (induction lines)
  case Nil
  show ?case by (simp add: List.map_filter_simps)
next
  case (Cons l lines)
  show ?case
  proof (cases "line_done decode l")
    case True
    then show ?thesis by (simp add: loop_body_done List.map_filter_simps)
  next
    case nd: False
    show ?thesis
    proof (cases "line_processable decode l")
      case True
      with nd Cons show ?thesis
        by (cases "line_fragment decode l")
           (simp_all add: loop_body_processable List.map_filter_simps Let_def)
    next
      case False
      from loop_body_unprocessable [OF False nd] obtain e where "loop_body decode l = Raise e" ..
      with False show ?thesis by (simp add: List.map_filter_simps)
    qed
  qed
qed

lemma feed_append:
  "feed b (s @ t) = (let (l1, b1) = feed b s; (l2, b2) = feed b1 t in (l1 @ l2, b2))"
  by (induction s arbitrary: b) (auto simp: Let_def split: prod.splits)

lemma aiter_lines_from_concat:
  "aiter_lines_from b reads = aiter_lines_from b [concat reads]"
proof (induction reads arbitrary: b)
  case Nil
  show ?case by simp
next
  case (Cons r rs)
  obtain l1 b1 where f1: "feed b r = (l1, b1)" by (cases "feed b r")
  obtain l2 b2 where f2: "feed b1 (concat rs) = (l2, b2)" by (cases "feed b1 (concat rs)")
  have "aiter_lines_from b (r # rs) = l1 @ aiter_lines_from b1 [concat rs]"
    using Cons.IH [of b1] by (simp add: f1)
  also have "\<dots> = l1 @ l2 @ aiter_lines_from b2 []" by (simp add: f2)
  also have "\<dots> = aiter_lines_from b [concat (r # rs)]"
    by (simp add: feed_append f1 f2)
  finally show ?case .
qed

lemma aiter_lines_concat: "aiter_lines reads = aiter_lines [concat reads]"
  unfolding aiter_lines_def by (rule aiter_lines_from_concat)


lemmas wire_defs = wire_the_def wire_end_def wire_done_def wire_done_content_def

lemma scenario_loads:
  "json_loads scenario_decode wire_the =
     Inr (JObj [(''message'', JObj [(''content'', JStr ''The'')]), (''done'', JBool False)])"
  "json_loads scenario_decode wire_end =
     Inr (JObj [(''message'', JObj [(''content'', JStr '' end.'')]), (''done'', JBool False)])"
  "json_loads scenario_decode wire_done = Inr (JObj [(''done'', JBool True)])"
  "json_loads scenario_decode wire_done_content =
     Inr (JObj [(''message'', JObj [(''content'', JStr ''x'')]), (''done'', JBool True)])"
  "json_loads scenario_decode [] = Inl JSONDecodeError"
  by (simp_all add: json_loads_def scenario_decode_def wire_defs json_whitespace_def)

lemma scenario_lines:
  "line_processable scenario_decode wire_the" "\<not> line_done scenario_decode wire_the"
  "line_processable scenario_decode wire_end" "\<not> line_done scenario_decode wire_end"
  "line_fragment scenario_decode wire_the = Some (JStr ''The'')"
  "line_fragment scenario_decode wire_end = Some (JStr '' end.'')"
  "line_done scenario_decode wire_done"
  "line_done scenario_decode wire_done_content"
  "line_fragment scenario_decode wire_done_content = Some (JStr ''x'')"
  by (simp_all add: line_processable_def line_done_def line_fragment_def line_content_def
        line_object_def scenario_loads)

lemma scenario_reads:
  "aiter_lines [wire_the @ [CHR 0x0A], wire_end @ [CHR 0x0A], wire_done @ [CHR 0x0A],
                wire_the @ [CHR 0x0A]]
     = [wire_the, wire_end, wire_done, wire_the]"
  by (simp add: aiter_lines_def wire_defs)


lemma stream_until_done:
  assumes "aiter_lines reads = pre @ d # post"
    and "list_all (\<lambda>l. line_processable decode l \<and> \<not> line_done decode l) pre"
    and "line_done decode d"
  shows "generate_response_stream decode reads =
           \<lparr>yielded = List.map_filter (line_fragment decode) pre,
            ended = Returned, unread = post\<rparr>"
proof -
  have "stream_loop decode (d # post) = \<lparr>yielded = [], ended = Returned, unread = post\<rparr>"
    using assms(3) by (simp add: loop_body_done)
  then show ?thesis
    unfolding generate_response_stream_def assms(1)
    by (simp add: stream_loop_prefix [OF assms(2)] Let_def)
qed

lemma loop_body_raises:
  assumes "\<not> line_processable decode l" "\<not> line_done decode l"
  shows "loop_body decode l = Raise (line_error decode l)"
  using assms
  by (auto simp: line_processable_def line_done_def line_object_def line_error_def loop_body_def
           split: sum.splits json.splits option.splits)

lemma stream_until_error:
  assumes "aiter_lines reads = pre @ b # post"
    and "list_all (\<lambda>l. line_processable decode l \<and> \<not> line_done decode l) pre"
    and "\<not> line_done decode b" "\<not> line_processable decode b"
  shows "generate_response_stream decode reads =
           \<lparr>yielded = List.map_filter (line_fragment decode) pre,
            ended = Raised (line_error decode b), unread = post\<rparr>"
proof -
  have "stream_loop decode (b # post) =
          \<lparr>yielded = [], ended = Raised (line_error decode b), unread = post\<rparr>"
    using loop_body_raises [OF assms(4,3)] by simp
  then show ?thesis
    unfolding generate_response_stream_def assms(1)
    by (simp add: stream_loop_prefix [OF assms(2)] Let_def)
qed

lemma stream_to_end:
  assumes "list_all (\<lambda>l. line_processable decode l \<and> \<not> line_done decode l) (aiter_lines reads)"
  shows "generate_response_stream decode reads =
           \<lparr>yielded = List.map_filter (line_fragment decode) (aiter_lines reads),
            ended = Returned, unread = []\<rparr>"
  unfolding generate_response_stream_def
  using stream_loop_prefix [OF assms, of "[]"] by (simp add: Let_def)

text \<open>
  Claim C1, as amended. For every response, the relay yields exactly the fragments (the
  non-empty content fields) of the lines that come before the first line with a true
  \<open>done\<close> flag and before the first line it cannot process, one value per fragment, in
  the order of the lines. When the first line that ends this run has a true \<open>done\<close>
  flag, the relay returns there: the content of that object is not yielded, and the
  lines after it are not read. When it is a line the relay cannot parse or process, the
  relay leaves with that line's exception, after the fragments before it, and the lines
  after it are not read. When there is no such line, the relay returns at the end of the
  response.
\<close>

theorem relay_forwards_fragments_before_done:
  "yielded (generate_response_stream decode reads) =
      List.map_filter (line_fragment decode)
        (takeWhile (\<lambda>l. line_processable decode l \<and> \<not> line_done decode l) (aiter_lines reads))
   \<and> (\<forall>pre d post.
         aiter_lines reads = pre @ d # post
         \<and> list_all (\<lambda>l. line_processable decode l \<and> \<not> line_done decode l) pre
         \<and> line_done decode d
         \<longrightarrow> generate_response_stream decode reads =
               \<lparr>yielded = List.map_filter (line_fragment decode) pre,
                ended = Returned, unread = post\<rparr>)
   \<and> (\<forall>pre b post.
         aiter_lines reads = pre @ b # post
         \<and> list_all (\<lambda>l. line_processable decode l \<and> \<not> line_done decode l) pre
         \<and> \<not> line_done decode b \<and> \<not> line_processable decode b
         \<longrightarrow> generate_response_stream decode reads =
               \<lparr>yielded = List.map_filter (line_fragment decode) pre,
                ended = Raised (line_error decode b), unread = post\<rparr>)
   \<and> (list_all (\<lambda>l. line_processable decode l \<and> \<not> line_done decode l) (aiter_lines reads)
         \<longrightarrow> generate_response_stream decode reads =
               \<lparr>yielded = List.map_filter (line_fragment decode) (aiter_lines reads),
                ended = Returned, unread = []\<rparr>)"
proof (intro conjI allI impI)
  show "yielded (generate_response_stream decode reads) =
      List.map_filter (line_fragment decode)
        (takeWhile (\<lambda>l. line_processable decode l \<and> \<not> line_done decode l) (aiter_lines reads))"
    unfolding generate_response_stream_def by (rule stream_loop_yielded)
next
  fix pre d post
  assume "aiter_lines reads = pre @ d # post
         \<and> list_all (\<lambda>l. line_processable decode l \<and> \<not> line_done decode l) pre
         \<and> line_done decode d"
  then show "generate_response_stream decode reads =
               \<lparr>yielded = List.map_filter (line_fragment decode) pre,
                ended = Returned, unread = post\<rparr>"
    using stream_until_done [of reads pre d post decode] by blast
next
  fix pre b post
  assume "aiter_lines reads = pre @ b # post
         \<and> list_all (\<lambda>l. line_processable decode l \<and> \<not> line_done decode l) pre
         \<and> \<not> line_done decode b \<and> \<not> line_processable decode b"
  then show "generate_response_stream decode reads =
               \<lparr>yielded = List.map_filter (line_fragment decode) pre,
                ended = Raised (line_error decode b), unread = post\<rparr>"
    using stream_until_error [of reads pre b post decode] by blast
next
  assume "list_all (\<lambda>l. line_processable decode l \<and> \<not> line_done decode l) (aiter_lines reads)"
  then show "generate_response_stream decode reads =
               \<lparr>yielded = List.map_filter (line_fragment decode) (aiter_lines reads),
                ended = Returned, unread = []\<rparr>"
    by (rule stream_to_end)
qed

lemma scenario_bad_line:
  "\<not> line_processable scenario_decode wire_bad" "\<not> line_done scenario_decode wire_bad"
  "line_error scenario_decode wire_bad = JSONDecodeError"
  by (simp_all add: line_processable_def line_done_def line_object_def line_error_def
        json_loads_def scenario_decode_def wire_defs wire_bad_def json_whitespace_def)

lemma scenario_bad_reads:
  "aiter_lines [wire_the @ [CHR 0x0A], wire_bad @ [CHR 0x0A], wire_done @ [CHR 0x0A]]
     = [wire_the, wire_bad, wire_done]"
  "aiter_lines [wire_the @ [CHR 0x0A], wire_end @ [CHR 0x0A]] = [wire_the, wire_end]"
  by (simp_all add: aiter_lines_def wire_defs wire_bad_def)

text \<open>
  The scenario's response with a further line after the \<open>done\<close> object; the same
  response with a line that is not JSON in the place of the second; and a response that
  ends without a \<open>done\<close> object.
\<close>

theorem relay_forwards_fragments_before_done_witness:
  "generate_response_stream scenario_decode
     [wire_the @ [CHR 0x0A], wire_end @ [CHR 0x0A], wire_done @ [CHR 0x0A], wire_the @ [CHR 0x0A]]
     = \<lparr>yielded = [JStr ''The'', JStr '' end.''], ended = Returned, unread = [wire_the]\<rparr>
   \<and> generate_response_stream scenario_decode
       [wire_the @ [CHR 0x0A], wire_bad @ [CHR 0x0A], wire_done @ [CHR 0x0A]]
     = \<lparr>yielded = [JStr ''The''], ended = Raised JSONDecodeError, unread = [wire_done]\<rparr>
   \<and> generate_response_stream scenario_decode [wire_the @ [CHR 0x0A], wire_end @ [CHR 0x0A]]
     = \<lparr>yielded = [JStr ''The'', JStr '' end.''], ended = Returned, unread = []\<rparr>"
proof -
  let ?reads = "[wire_the @ [CHR 0x0A], wire_end @ [CHR 0x0A], wire_done @ [CHR 0x0A],
                 wire_the @ [CHR 0x0A]]"
  let ?bad = "[wire_the @ [CHR 0x0A], wire_bad @ [CHR 0x0A], wire_done @ [CHR 0x0A]]"
  let ?open = "[wire_the @ [CHR 0x0A], wire_end @ [CHR 0x0A]]"
  have h1: "aiter_lines ?reads = [wire_the, wire_end] @ wire_done # [wire_the]
        \<and> list_all (\<lambda>l. line_processable scenario_decode l \<and> \<not> line_done scenario_decode l)
             [wire_the, wire_end]
        \<and> line_done scenario_decode wire_done"
    by (simp add: scenario_reads scenario_lines)
  have h2: "aiter_lines ?bad = [wire_the] @ wire_bad # [wire_done]
        \<and> list_all (\<lambda>l. line_processable scenario_decode l \<and> \<not> line_done scenario_decode l)
             [wire_the]
        \<and> \<not> line_done scenario_decode wire_bad \<and> \<not> line_processable scenario_decode wire_bad"
    by (simp add: scenario_bad_reads scenario_lines scenario_bad_line)
  have h3: "list_all (\<lambda>l. line_processable scenario_decode l \<and> \<not> line_done scenario_decode l)
             (aiter_lines ?open)"
    by (simp add: scenario_bad_reads scenario_lines)
  from relay_forwards_fragments_before_done
    [of scenario_decode ?reads, THEN conjunct2, THEN conjunct1, rule_format, OF h1]
  have 1: "generate_response_stream scenario_decode ?reads =
          \<lparr>yielded = List.map_filter (line_fragment scenario_decode) [wire_the, wire_end],
           ended = Returned, unread = [wire_the]\<rparr>" .
  from relay_forwards_fragments_before_done
    [of scenario_decode ?bad, THEN conjunct2, THEN conjunct2, THEN conjunct1, rule_format, OF h2]
  have 2: "generate_response_stream scenario_decode ?bad =
          \<lparr>yielded = List.map_filter (line_fragment scenario_decode) [wire_the],
           ended = Raised (line_error scenario_decode wire_bad), unread = [wire_done]\<rparr>" .
  from relay_forwards_fragments_before_done
    [of scenario_decode ?open, THEN conjunct2, THEN conjunct2, THEN conjunct2, rule_format, OF h3]
  have 3: "generate_response_stream scenario_decode ?open =
          \<lparr>yielded = List.map_filter (line_fragment scenario_decode) (aiter_lines ?open),
           ended = Returned, unread = []\<rparr>" .
  from 1 2 3 show ?thesis
    by (simp add: List.map_filter_simps scenario_lines scenario_bad_line scenario_bad_reads)
qed

text \<open>
  The claim as stated fails for a \<open>done\<close> object that carries a content: the line is
  parsed and its content field is not empty, yet nothing is yielded.
\<close>

theorem relay_done_content_counterexample:
  "line_fragment scenario_decode wire_done_content = Some (JStr ''x'')
   \<and> generate_response_stream scenario_decode [wire_done_content @ [CHR 0x0A]]
       = \<lparr>yielded = [], ended = Returned, unread = []\<rparr>"
proof -
  have "aiter_lines [wire_done_content @ [CHR 0x0A]] = [wire_done_content]"
    by (simp add: aiter_lines_def wire_defs)
  then show ?thesis
    by (simp add: generate_response_stream_def loop_body_done scenario_lines)
qed

text \<open>
  Claim C4, as amended. A line that is empty or consists of whitespace only is not
  skipped: when the relay reaches it, the parser raises, the generator ends with that
  error after the fragments of the lines before it, and the lines after it are not read.
  A line that spans several network reads is parsed as one line: the lines, and with them
  the whole run, depend only on the concatenation of the reads.
\<close>

theorem relay_blank_line_raises:
  "(\<forall>pre b post.
      aiter_lines reads = pre @ b # post
      \<and> list_all (\<lambda>l. line_processable decode l \<and> \<not> line_done decode l) pre
      \<and> blank_line b
      \<longrightarrow> generate_response_stream decode reads =
            \<lparr>yielded = List.map_filter (line_fragment decode) pre,
             ended = Raised JSONDecodeError, unread = post\<rparr>)
   \<and> aiter_lines reads = aiter_lines [concat reads]
   \<and> (\<forall>reads'. concat reads' = concat reads
         \<longrightarrow> generate_response_stream decode reads' = generate_response_stream decode reads)"
proof (intro conjI allI impI)
  fix pre b post
  assume a: "aiter_lines reads = pre @ b # post
      \<and> list_all (\<lambda>l. line_processable decode l \<and> \<not> line_done decode l) pre
      \<and> blank_line b"
  then have "stream_loop decode (b # post) =
      \<lparr>yielded = [], ended = Raised JSONDecodeError, unread = post\<rparr>"
    by (simp add: loop_body_blank)
  with a show "generate_response_stream decode reads =
            \<lparr>yielded = List.map_filter (line_fragment decode) pre,
             ended = Raised JSONDecodeError, unread = post\<rparr>"
    unfolding generate_response_stream_def
    by (simp add: stream_loop_prefix Let_def)
next
  show "aiter_lines reads = aiter_lines [concat reads]" by (rule aiter_lines_concat)
next
  fix reads'
  assume "concat reads' = concat reads"
  then have "aiter_lines reads' = aiter_lines reads"
    using aiter_lines_concat [of reads] aiter_lines_concat [of reads'] by simp
  then show "generate_response_stream decode reads' = generate_response_stream decode reads"
    by (simp add: generate_response_stream_def)
qed

lemma blank_reads:
  "aiter_lines [wire_the @ [CHR 0x0A], [CHR 0x0A], wire_done @ [CHR 0x0A]]
     = [wire_the, [], wire_done]"
  by (simp add: aiter_lines_def wire_defs)

lemma split_reads:
  "concat [take 20 wire_the, drop 20 wire_the @ [CHR 0x0A] @ wire_done, [CHR 0x0A]]
     = concat [wire_the @ [CHR 0x0A], wire_done @ [CHR 0x0A]]"
  by simp

theorem relay_blank_line_raises_witness:
  "generate_response_stream scenario_decode
     [wire_the @ [CHR 0x0A], [CHR 0x0A], wire_done @ [CHR 0x0A]]
   = \<lparr>yielded = [JStr ''The''], ended = Raised JSONDecodeError, unread = [wire_done]\<rparr>
   \<and> generate_response_stream scenario_decode
       [take 20 wire_the, drop 20 wire_the @ [CHR 0x0A] @ wire_done, [CHR 0x0A]]
     = generate_response_stream scenario_decode [wire_the @ [CHR 0x0A], wire_done @ [CHR 0x0A]]"
proof -
  let ?reads = "[wire_the @ [CHR 0x0A], [CHR 0x0A], wire_done @ [CHR 0x0A]]"
  have "aiter_lines ?reads = [wire_the] @ [] # [wire_done]
      \<and> list_all (\<lambda>l. line_processable scenario_decode l \<and> \<not> line_done scenario_decode l)
           [wire_the]
      \<and> blank_line []"
    by (simp add: blank_reads scenario_lines blank_line_def)
  with relay_blank_line_raises [of ?reads scenario_decode]
  have 1: "generate_response_stream scenario_decode ?reads =
            \<lparr>yielded = List.map_filter (line_fragment scenario_decode) [wire_the],
             ended = Raised JSONDecodeError, unread = [wire_done]\<rparr>"
    by blast
  from relay_blank_line_raises [of "[wire_the @ [CHR 0x0A], wire_done @ [CHR 0x0A]]" scenario_decode]
    split_reads
  have 2: "generate_response_stream scenario_decode
       [take 20 wire_the, drop 20 wire_the @ [CHR 0x0A] @ wire_done, [CHR 0x0A]]
     = generate_response_stream scenario_decode [wire_the @ [CHR 0x0A], wire_done @ [CHR 0x0A]]"
    by blast
  from 1 2 show ?thesis by (simp add: List.map_filter_simps scenario_lines)
qed

text \<open>A blank line between two objects ends the stream with the parser's error.\<close>

theorem relay_blank_line_counterexample:
  "ended (generate_response_stream scenario_decode
            [wire_the @ [CHR 0x0A], [CHR 0x0A], wire_done @ [CHR 0x0A]])
     = Raised JSONDecodeError"
  by (simp add: generate_response_stream_def blank_reads loop_body_def scenario_loads)

section \<open>Properties of the chat endpoint\<close>

lemma forward_events:
  "forward fragments full = (events, r) \<Longrightarrow>
     forwarded (map Send events @ rest) = [s. ContentEvent s \<leftarrow> events] @ forwarded rest"
proof (induction fragments full arbitrary: events r rule: forward.induct)
  case (1 full)
  then show ?case by simp
next
  case (2 s fragments full)
  obtain evs r' where f: "forward fragments (full @ s) = (evs, r')"
    by (cases "forward fragments (full @ s)")
  with 2 show ?case by auto
qed simp_all

lemma forward_reply:
  "forward fragments full = (events, Some reply) \<Longrightarrow>
     reply = full @ concat [s. ContentEvent s \<leftarrow> events] \<and> fragments = map JStr [s. ContentEvent s \<leftarrow> events]"
proof (induction fragments full arbitrary: events rule: forward.induct)
  case (1 full)
  then show ?case by simp
next
  case (2 s fragments full)
  obtain evs r' where f: "forward fragments (full @ s) = (evs, r')"
    by (cases "forward fragments (full @ s)")
  with 2 show ?case by auto
qed simp_all

lemma forward_text:
  "forward (map JStr ts) full = (map ContentEvent ts, Some (full @ concat ts))"
  by (induction ts arbitrary: full) simp_all


lemma insert_message_messages:
  "insert_message db new = Inr db' \<Longrightarrow> messages db' = messages db @ [new]"
  by (auto simp: insert_message_def fits_columns_def auto_generate_conversation_title_def Let_def
           split: if_splits)

lemma save_message_messages:
  "save_message db i cid r c m = Inr db' \<Longrightarrow>
     messages db' = messages db
       @ [\<lparr>msg_id = i, conversation_id = cid, role = r, content = c, model = m\<rparr>]"
  unfolding save_message_def by (rule insert_message_messages)

lemma chat_stream_write_failed:
  assumes "save_message db (fst ids) cid ''user'' user_text None = Inl e"
  shows "chat_stream decode sp server ids db cid user_text model_name = ([DbWriteFailed e], db)"
  using assms by (simp add: chat_stream_def)

text \<open>The shape of every trace of a turn whose first write succeeded.\<close>

lemma chat_stream_started:
  assumes "save_message db (fst ids) cid ''user'' user_text None = Inr db1"
    and "ctx = prepare_context (get_conversation_messages db1 cid) sp"
    and "r = generate_response_stream decode (server model_name ctx)"
    and "start = [DbWrite \<lparr>msg_id = fst ids, conversation_id = cid, role = ''user'',
                               content = user_text, model = None\<rparr>,
                      DbRead cid, Dispatch model_name ctx]
                     @ map Send (fst (forward (yielded r) []))"
  shows "chat_stream decode sp server ids db cid user_text model_name
     = (case (ended r, snd (forward (yielded r) [])) of
          (Returned, Some full_response) \<Rightarrow>
            (case save_message db1 (snd ids) cid ''assistant'' full_response (Some model_name) of
               Inl e \<Rightarrow> (start @ [DbWriteFailed e, Send (ErrorEvent ''reply not stored'')], db1)
             | Inr db2 \<Rightarrow>
                 (start @ [DbWrite \<lparr>msg_id = snd ids, conversation_id = cid,
                                    role = ''assistant'', content = full_response,
                                    model = Some model_name\<rparr>,
                           Send DoneEvent], db2))
        | _ \<Rightarrow> (start @ [Send (ErrorEvent ''stream failed'')], db1))"
  using assms
  by (auto simp: chat_stream_def Let_def case_prod_beta
           split: ending.splits option.splits sum.splits)


lemma chat_stream_trace:
  assumes "save_message db (fst ids) cid ''user'' user_text None = Inr db1"
  shows "\<exists>rest. fst (chat_stream decode sp server ids db cid user_text model_name)
            = DbWrite \<lparr>msg_id = fst ids, conversation_id = cid, role = ''user'',
                       content = user_text, model = None\<rparr>
              # DbRead cid
              # Dispatch model_name (prepare_context (get_conversation_messages db1 cid) sp)
              # rest
          \<and> (\<forall>m c. Dispatch m c \<notin> set rest)"
  unfolding chat_stream_started [OF assms refl refl refl]
  by (auto split: ending.splits option.splits sum.splits)

lemma chat_stream_keeps_user_row:
  assumes "save_message db (fst ids) cid ''user'' user_text None = Inr db1"
  shows "\<lparr>msg_id = fst ids, conversation_id = cid, role = ''user'',
           content = user_text, model = None\<rparr>
         \<in> set (messages (snd (chat_stream decode sp server ids db cid user_text model_name)))"
  unfolding chat_stream_started [OF assms refl refl refl]
  using save_message_messages [OF assms]
  by (auto split: ending.splits option.splits sum.splits dest: save_message_messages)

lemma forwarded_start:
  "forwarded ([DbWrite u, DbRead cid, Dispatch m ctx] @ map Send events @ rest)
     = [s. ContentEvent s \<leftarrow> events] @ forwarded rest"
proof -
  have "forwarded (map Send events @ rest) = [s. ContentEvent s \<leftarrow> events] @ forwarded rest"
  proof (induction events)
    case Nil
    show ?case by simp
  next
    case (Cons ev events)
    then show ?case by (cases ev) simp_all
  qed
  then show ?thesis by simp
qed

lemma chat_stream_assistant_row:
  assumes "DbWrite row \<in> set (fst (chat_stream decode sp server ids db cid user_text model_name))"
    and "role row = ''assistant''"
  shows "content row
           = concat (forwarded (fst (chat_stream decode sp server ids db cid user_text model_name)))
       \<and> model row = Some model_name \<and> conversation_id row = cid
       \<and> get_conversation_messages
            (snd (chat_stream decode sp server ids db cid user_text model_name)) cid \<noteq> []
       \<and> last (get_conversation_messages
            (snd (chat_stream decode sp server ids db cid user_text model_name)) cid) = row"
proof (cases "save_message db (fst ids) cid ''user'' user_text None")
  case (Inl e)
  with assms show ?thesis by (simp add: chat_stream_write_failed)
next
  case (Inr db1)
  let ?ctx = "prepare_context (get_conversation_messages db1 cid) sp"
  let ?r = "generate_response_stream decode (server model_name ?ctx)"
  let ?u = "\<lparr>msg_id = fst ids, conversation_id = cid, role = ''user'',
              content = user_text, model = None\<rparr>"
  obtain events full where f: "forward (yielded ?r) [] = (events, full)"
    by (cases "forward (yielded ?r) []")
  note shape = chat_stream_started [OF Inr refl refl refl]
  show ?thesis
  proof (cases "ended ?r = Returned \<and> full \<noteq> None")
    case False
    then have "fst (chat_stream decode sp server ids db cid user_text model_name)
        = [DbWrite ?u, DbRead cid, Dispatch model_name ?ctx] @ map Send events
            @ [Send (ErrorEvent ''stream failed'')]"
      unfolding shape using f by (auto split: ending.splits option.splits)
    with assms show ?thesis by auto
  next
    case True
    then obtain reply where full: "full = Some reply" and ret: "ended ?r = Returned" by auto
    from forward_reply [OF f [unfolded full]]
    have reply: "reply = concat [s. ContentEvent s \<leftarrow> events]" by simp
    show ?thesis
    proof (cases "save_message db1 (snd ids) cid ''assistant'' reply (Some model_name)")
      case (Inl e)
      then have "fst (chat_stream decode sp server ids db cid user_text model_name)
          = [DbWrite ?u, DbRead cid, Dispatch model_name ?ctx] @ map Send events
              @ [DbWriteFailed e, Send (ErrorEvent ''reply not stored'')]"
        unfolding shape using f full ret by simp
      with assms show ?thesis by auto
    next
      case (Inr db2)
      let ?a = "\<lparr>msg_id = snd ids, conversation_id = cid, role = ''assistant'',
                  content = reply, model = Some model_name\<rparr>"
      from Inr have res: "chat_stream decode sp server ids db cid user_text model_name
          = ([DbWrite ?u, DbRead cid, Dispatch model_name ?ctx] @ map Send events
              @ [DbWrite ?a, Send DoneEvent], db2)"
        unfolding shape using f full ret by simp
      from assms have row: "row = ?a" unfolding res by auto
      have fw: "forwarded (fst (chat_stream decode sp server ids db cid user_text model_name))
                  = [s. ContentEvent s \<leftarrow> events]"
        unfolding res fst_conv forwarded_start by simp
      have "messages db2 = messages db1 @ [?a]" by (rule save_message_messages [OF Inr])
      then have "get_conversation_messages db2 cid = get_conversation_messages db1 cid @ [?a]"
        by (simp add: get_conversation_messages_def)
      then show ?thesis
        unfolding fw unfolding res snd_conv by (simp add: row reply)
    qed
  qed
qed


lemma forwarded_content_events:
  "forwarded (map (Send \<circ> ContentEvent) ts @ rest) = ts @ forwarded rest"
  by (induction ts) simp_all

lemma chat_stream_completed:
  assumes u: "save_message db (fst ids) cid ''user'' user_text None = Inr db1"
    and lines: "aiter_lines (server model_name
                   (prepare_context (get_conversation_messages db1 cid) sp)) = pre @ d # post"
    and ok: "list_all (\<lambda>l. line_processable decode l \<and> \<not> line_done decode l) pre"
    and dn: "line_done decode d"
    and frs: "List.map_filter (line_fragment decode) pre = map JStr ts"
    and a: "save_message db1 (snd ids) cid ''assistant'' (concat ts) (Some model_name) = Inr db2"
  shows "chat_stream decode sp server ids db cid user_text model_name =
     ([DbWrite \<lparr>msg_id = fst ids, conversation_id = cid, role = ''user'',
                 content = user_text, model = None\<rparr>,
       DbRead cid,
       Dispatch model_name (prepare_context (get_conversation_messages db1 cid) sp)]
      @ map Send (map ContentEvent ts)
      @ [DbWrite \<lparr>msg_id = snd ids, conversation_id = cid, role = ''assistant'',
                   content = concat ts, model = Some model_name\<rparr>,
         Send DoneEvent], db2)"
proof -
  have r: "generate_response_stream decode
             (server model_name (prepare_context (get_conversation_messages db1 cid) sp))
           = \<lparr>yielded = map JStr ts, ended = Returned, unread = post\<rparr>"
    using stream_until_done [OF lines ok dn] frs by simp
  show ?thesis
    unfolding chat_stream_started [OF u refl refl refl] r
    by (simp add: forward_text a)
qed

text \<open>The turn of the scenario, step by step.\<close>

lemma scenario_user_saved:
  "save_message scenario_db 10 1 ''user'' ''Hi'' None =
     Inr \<lparr>conversations = [\<lparr>conv_id = 1, user_id = 7, title = Some ''Hi''\<rparr>],
          messages = [\<lparr>msg_id = 10, conversation_id = 1, role = ''user'', content = ''Hi'',
                       model = None\<rparr>]\<rparr>"
  by (simp add: save_message_def insert_message_def fits_columns_def auto_generate_conversation_title_def
        scenario_db_def)

lemma scenario_reply_saved:
  "save_message
     \<lparr>conversations = [\<lparr>conv_id = 1, user_id = 7, title = Some ''Hi''\<rparr>],
      messages = [\<lparr>msg_id = 10, conversation_id = 1, role = ''user'', content = ''Hi'',
                   model = None\<rparr>]\<rparr>
     11 1 ''assistant'' ''The end.'' (Some ''qwen3-vl:8b'') =
     Inr \<lparr>conversations = [\<lparr>conv_id = 1, user_id = 7, title = Some ''Hi''\<rparr>],
          messages = [\<lparr>msg_id = 10, conversation_id = 1, role = ''user'', content = ''Hi'',
                       model = None\<rparr>,
                      \<lparr>msg_id = 11, conversation_id = 1, role = ''assistant'',
                       content = ''The end.'', model = Some ''qwen3-vl:8b''\<rparr>]\<rparr>"
  by (simp add: save_message_def insert_message_def fits_columns_def auto_generate_conversation_title_def)

lemma scenario_server_lines:
  "aiter_lines (scenario_server model_name ctx) = [wire_the, wire_end] @ wire_done # []"
  by (simp add: scenario_server_def aiter_lines_def wire_defs)

text \<open>
  Claim C2. In every turn, an assistant message that is written has as its content the
  concatenation of the fragments sent to the client, in the order in which they were
  sent, carries the selected model, and is the last message read back for the
  conversation. When the stream completes with a line whose \<open>done\<close> flag is true, after
  lines whose fragments are the texts \<open>ts\<close>, and both writes succeed, then exactly the
  texts \<open>ts\<close> were sent, the assistant message with content \<open>concat ts\<close> was written, and
  the turn ended with the \<open>done\<close> event.
\<close>

theorem assistant_message_is_concatenation:
  "(\<forall>row. DbWrite row \<in> set (fst (chat_stream decode sp server ids db cid user_text model_name))
           \<and> role row = ''assistant''
      \<longrightarrow> content row
            = concat (forwarded (fst (chat_stream decode sp server ids db cid user_text model_name)))
          \<and> model row = Some model_name
          \<and> conversation_id row = cid
          \<and> get_conversation_messages
               (snd (chat_stream decode sp server ids db cid user_text model_name)) cid \<noteq> []
          \<and> last (get_conversation_messages
               (snd (chat_stream decode sp server ids db cid user_text model_name)) cid) = row)
   \<and> (\<forall>db1 db2 pre d post ts.
         save_message db (fst ids) cid ''user'' user_text None = Inr db1
         \<and> aiter_lines (server model_name
               (prepare_context (get_conversation_messages db1 cid) sp)) = pre @ d # post
         \<and> list_all (\<lambda>l. line_processable decode l \<and> \<not> line_done decode l) pre
         \<and> line_done decode d
         \<and> List.map_filter (line_fragment decode) pre = map JStr ts
         \<and> save_message db1 (snd ids) cid ''assistant'' (concat ts) (Some model_name) = Inr db2
      \<longrightarrow> forwarded (fst (chat_stream decode sp server ids db cid user_text model_name)) = ts
          \<and> DbWrite \<lparr>msg_id = snd ids, conversation_id = cid, role = ''assistant'',
                      content = concat ts, model = Some model_name\<rparr>
              \<in> set (fst (chat_stream decode sp server ids db cid user_text model_name))
          \<and> last (fst (chat_stream decode sp server ids db cid user_text model_name))
              = Send DoneEvent
          \<and> snd (chat_stream decode sp server ids db cid user_text model_name) = db2)"
proof (intro conjI allI impI)
  fix row
  assume "DbWrite row \<in> set (fst (chat_stream decode sp server ids db cid user_text model_name))
           \<and> role row = ''assistant''"
  then have w: "DbWrite row \<in> set (fst (chat_stream decode sp server ids db cid user_text model_name))"
    and r: "role row = ''assistant''" by simp_all
  note c = chat_stream_assistant_row [OF w r]
  from c show "content row
            = concat (forwarded (fst (chat_stream decode sp server ids db cid user_text model_name)))"
    by simp
  from c show "model row = Some model_name" by simp
  from c show "conversation_id row = cid" by simp
  from c show "get_conversation_messages
               (snd (chat_stream decode sp server ids db cid user_text model_name)) cid \<noteq> []"
    by simp
  from c show "last (get_conversation_messages
               (snd (chat_stream decode sp server ids db cid user_text model_name)) cid) = row"
    by simp
next
  fix db1 db2 pre d post ts
  assume h: "save_message db (fst ids) cid ''user'' user_text None = Inr db1
         \<and> aiter_lines (server model_name
               (prepare_context (get_conversation_messages db1 cid) sp)) = pre @ d # post
         \<and> list_all (\<lambda>l. line_processable decode l \<and> \<not> line_done decode l) pre
         \<and> line_done decode d
         \<and> List.map_filter (line_fragment decode) pre = map JStr ts
         \<and> save_message db1 (snd ids) cid ''assistant'' (concat ts) (Some model_name) = Inr db2"
  then have u: "save_message db (fst ids) cid ''user'' user_text None = Inr db1"
    and l: "aiter_lines (server model_name
               (prepare_context (get_conversation_messages db1 cid) sp)) = pre @ d # post"
    and ok: "list_all (\<lambda>l. line_processable decode l \<and> \<not> line_done decode l) pre"
    and dn: "line_done decode d"
    and frs: "List.map_filter (line_fragment decode) pre = map JStr ts"
    and a: "save_message db1 (snd ids) cid ''assistant'' (concat ts) (Some model_name) = Inr db2"
    by blast+
  have res: "chat_stream decode sp server ids db cid user_text model_name =
     ([DbWrite \<lparr>msg_id = fst ids, conversation_id = cid, role = ''user'',
                 content = user_text, model = None\<rparr>,
       DbRead cid,
       Dispatch model_name (prepare_context (get_conversation_messages db1 cid) sp)]
      @ map Send (map ContentEvent ts)
      @ [DbWrite \<lparr>msg_id = snd ids, conversation_id = cid, role = ''assistant'',
                   content = concat ts, model = Some model_name\<rparr>,
         Send DoneEvent], db2)"
    using u l ok dn frs a by (rule chat_stream_completed)
  show "forwarded (fst (chat_stream decode sp server ids db cid user_text model_name)) = ts"
    unfolding res by (simp add: forwarded_content_events)
  show "DbWrite \<lparr>msg_id = snd ids, conversation_id = cid, role = ''assistant'',
                      content = concat ts, model = Some model_name\<rparr>
              \<in> set (fst (chat_stream decode sp server ids db cid user_text model_name))"
    unfolding res by simp
  show "last (fst (chat_stream decode sp server ids db cid user_text model_name)) = Send DoneEvent"
    unfolding res by simp
  show "snd (chat_stream decode sp server ids db cid user_text model_name) = db2"
    unfolding res by simp
qed

theorem assistant_message_is_concatenation_witness:
  "forwarded (fst (chat_stream scenario_decode ''You are an AI assistant.'' scenario_server
                     (10, 11) scenario_db 1 ''Hi'' ''qwen3-vl:8b''))
     = [''The'', '' end.'']
   \<and> last (get_conversation_messages
        (snd (chat_stream scenario_decode ''You are an AI assistant.'' scenario_server
                (10, 11) scenario_db 1 ''Hi'' ''qwen3-vl:8b'')) 1)
     = \<lparr>msg_id = 11, conversation_id = 1, role = ''assistant'', content = ''The end.'',
        model = Some ''qwen3-vl:8b''\<rparr>"
proof -
  let ?turn = "chat_stream scenario_decode ''You are an AI assistant.'' scenario_server
                 (10, 11) scenario_db 1 ''Hi'' ''qwen3-vl:8b''"
  let ?db1 = "\<lparr>conversations = [\<lparr>conv_id = 1, user_id = 7, title = Some ''Hi''\<rparr>],
      messages = [\<lparr>msg_id = 10, conversation_id = 1, role = ''user'', content = ''Hi'',
                   model = None\<rparr>]\<rparr>"
  let ?a = "\<lparr>msg_id = 11, conversation_id = 1, role = ''assistant'', content = ''The end.'',
        model = Some ''qwen3-vl:8b''\<rparr>"
  let ?db2 = "\<lparr>conversations = [\<lparr>conv_id = 1, user_id = 7, title = Some ''Hi''\<rparr>],
      messages = [\<lparr>msg_id = 10, conversation_id = 1, role = ''user'', content = ''Hi'',
                   model = None\<rparr>, ?a]\<rparr>"
  note inst = assistant_message_is_concatenation
    [of scenario_decode "''You are an AI assistant.''" scenario_server "(10, 11)" scenario_db 1
        "''Hi''" "''qwen3-vl:8b''"]
  have hyp: "save_message scenario_db (fst (10::nat, 11::nat)) 1 ''user'' ''Hi'' None = Inr ?db1
      \<and> aiter_lines (scenario_server ''qwen3-vl:8b''
            (prepare_context (get_conversation_messages ?db1 1) ''You are an AI assistant.''))
          = [wire_the, wire_end] @ wire_done # []
      \<and> list_all (\<lambda>l. line_processable scenario_decode l \<and> \<not> line_done scenario_decode l)
            [wire_the, wire_end]
      \<and> line_done scenario_decode wire_done
      \<and> List.map_filter (line_fragment scenario_decode) [wire_the, wire_end]
          = map JStr [''The'', '' end.'']
      \<and> save_message ?db1 (snd (10::nat, 11::nat)) 1 ''assistant'' (concat [''The'', '' end.''])
            (Some ''qwen3-vl:8b'') = Inr ?db2"
    using scenario_user_saved scenario_reply_saved
    by (simp add: scenario_server_lines scenario_lines List.map_filter_simps)
  note completed = inst [THEN conjunct2, rule_format, OF hyp]
  from completed have sent: "forwarded (fst ?turn) = [''The'', '' end.'']"
    and written: "DbWrite ?a \<in> set (fst ?turn)"
    by simp_all
  from written have "DbWrite ?a \<in> set (fst ?turn) \<and> role ?a = ''assistant''" by simp
  from inst [THEN conjunct1, rule_format, OF this]
  have "last (get_conversation_messages (snd ?turn) 1) = ?a" by simp
  with sent show ?thesis by simp
qed

text \<open>
  Claim C3. In the trace of every turn, a request to the model server is preceded by
  the successful write of the user's message. If that write fails, the trace holds no
  request and no event sent to the client (no stream is opened), and the datastore is
  unchanged. If it succeeds, the user's message is in the datastore at the end of the
  turn, however the stream went.
\<close>

theorem user_message_written_before_dispatch:
  "(\<forall>i m ctx.
       i < length (fst (chat_stream decode sp server ids db cid user_text model_name))
       \<and> fst (chat_stream decode sp server ids db cid user_text model_name) ! i = Dispatch m ctx
       \<longrightarrow> (\<exists>j<i. fst (chat_stream decode sp server ids db cid user_text model_name) ! j
                    = DbWrite \<lparr>msg_id = fst ids, conversation_id = cid, role = ''user'',
                               content = user_text, model = None\<rparr>))
   \<and> (\<forall>e. save_message db (fst ids) cid ''user'' user_text None = Inl e
       \<longrightarrow> (\<forall>m ctx. Dispatch m ctx
                      \<notin> set (fst (chat_stream decode sp server ids db cid user_text model_name)))
           \<and> (\<forall>ev. Send ev
                      \<notin> set (fst (chat_stream decode sp server ids db cid user_text model_name)))
           \<and> snd (chat_stream decode sp server ids db cid user_text model_name) = db)
   \<and> (\<forall>db1. save_message db (fst ids) cid ''user'' user_text None = Inr db1
       \<longrightarrow> \<lparr>msg_id = fst ids, conversation_id = cid, role = ''user'',
              content = user_text, model = None\<rparr>
            \<in> set (messages (snd (chat_stream decode sp server ids db cid user_text model_name))))"
proof (intro conjI allI impI)
  fix i m ctx
  let ?trace = "fst (chat_stream decode sp server ids db cid user_text model_name)"
  let ?row = "\<lparr>msg_id = fst ids, conversation_id = cid, role = ''user'',
                 content = user_text, model = None\<rparr>"
  assume a: "i < length ?trace \<and> ?trace ! i = Dispatch m ctx"
  show "\<exists>j<i. ?trace ! j = DbWrite ?row"
  proof (cases "save_message db (fst ids) cid ''user'' user_text None")
    case (Inl e)
    from a show ?thesis by (auto simp: chat_stream_write_failed [OF Inl])
  next
    case (Inr db1)
    from chat_stream_trace [OF Inr, of decode sp server model_name] obtain rest where
      t: "?trace = DbWrite ?row # DbRead cid
            # Dispatch model_name (prepare_context (get_conversation_messages db1 cid) sp) # rest"
      and r: "\<forall>m c. Dispatch m c \<notin> set rest" by blast
    have "i = 2"
    proof (rule ccontr)
      assume "i \<noteq> 2"
      with a t have "i \<ge> 3" by (cases i; cases "i - 1") auto
      with a t have "rest ! (i - 3) = Dispatch m ctx" "i - 3 < length rest"
        by (auto simp: nth_Cons' numeral_3_eq_3 split: if_splits)
      with r show False by (metis nth_mem)
    qed
    with t show ?thesis by (intro exI [of _ 0]) simp
  qed
next
  fix e m ctx
  assume "save_message db (fst ids) cid ''user'' user_text None = Inl e"
  then show "Dispatch m ctx \<notin> set (fst (chat_stream decode sp server ids db cid user_text model_name))"
    by (simp add: chat_stream_write_failed)
next
  fix e ev
  assume "save_message db (fst ids) cid ''user'' user_text None = Inl e"
  then show "Send ev \<notin> set (fst (chat_stream decode sp server ids db cid user_text model_name))"
    by (simp add: chat_stream_write_failed)
next
  fix e
  assume "save_message db (fst ids) cid ''user'' user_text None = Inl e"
  then show "snd (chat_stream decode sp server ids db cid user_text model_name) = db"
    by (simp add: chat_stream_write_failed)
next
  fix db1
  assume "save_message db (fst ids) cid ''user'' user_text None = Inr db1"
  then show "\<lparr>msg_id = fst ids, conversation_id = cid, role = ''user'',
              content = user_text, model = None\<rparr>
            \<in> set (messages (snd (chat_stream decode sp server ids db cid user_text model_name)))"
    by (rule chat_stream_keeps_user_row)
qed

theorem user_message_written_before_dispatch_witness:
  "(\<exists>j<2. fst (chat_stream scenario_decode ''You are an AI assistant.'' scenario_server
                   (10, 11) scenario_db 1 ''Hi'' ''qwen3-vl:8b'') ! j
            = DbWrite \<lparr>msg_id = 10, conversation_id = 1, role = ''user'', content = ''Hi'',
                       model = None\<rparr>)
   \<and> \<lparr>msg_id = 10, conversation_id = 1, role = ''user'', content = ''Hi'', model = None\<rparr>
       \<in> set (messages (snd (chat_stream scenario_decode ''You are an AI assistant.''
                                 scenario_server (10, 11) scenario_db 1 ''Hi'' ''qwen3-vl:8b'')))
   \<and> Send DoneEvent
       \<notin> set (fst (chat_stream scenario_decode ''You are an AI assistant.'' scenario_server
                       (10, 11) \<lparr>conversations = [], messages = []\<rparr> 1 ''Hi'' ''qwen3-vl:8b''))
   \<and> snd (chat_stream scenario_decode ''You are an AI assistant.'' scenario_server
             (10, 11) \<lparr>conversations = [], messages = []\<rparr> 1 ''Hi'' ''qwen3-vl:8b'')
       = \<lparr>conversations = [], messages = []\<rparr>"
proof -
  let ?turn = "chat_stream scenario_decode ''You are an AI assistant.'' scenario_server
                 (10, 11) scenario_db 1 ''Hi'' ''qwen3-vl:8b''"
  let ?lost = "chat_stream scenario_decode ''You are an AI assistant.'' scenario_server
                 (10, 11) \<lparr>conversations = [], messages = []\<rparr> 1 ''Hi'' ''qwen3-vl:8b''"
  let ?db1 = "\<lparr>conversations = [\<lparr>conv_id = 1, user_id = 7, title = Some ''Hi''\<rparr>],
      messages = [\<lparr>msg_id = 10, conversation_id = 1, role = ''user'', content = ''Hi'',
                   model = None\<rparr>]\<rparr>"
  let ?ctx = "prepare_context (get_conversation_messages ?db1 1) ''You are an AI assistant.''"
  have saved: "save_message scenario_db (fst (10::nat, 11::nat)) 1 ''user'' ''Hi'' None = Inr ?db1"
    using scenario_user_saved by simp
  have failed: "save_message \<lparr>conversations = [], messages = []\<rparr> (fst (10::nat, 11::nat)) 1 ''user''
                  ''Hi'' None = Inl ForeignKeyViolation"
    by (simp add: save_message_def insert_message_def fits_columns_def)
  from chat_stream_trace [OF saved, of scenario_decode "''You are an AI assistant.''"
      scenario_server "''qwen3-vl:8b''"]
  have at: "2 < length (fst ?turn) \<and> fst ?turn ! 2 = Dispatch ''qwen3-vl:8b'' ?ctx"
    by auto
  note inst = user_message_written_before_dispatch
    [of scenario_decode "''You are an AI assistant.''" scenario_server "(10, 11)" scenario_db 1
        "''Hi''" "''qwen3-vl:8b''"]
  from inst [THEN conjunct1, rule_format, OF at]
  have 1: "\<exists>j<2. fst ?turn ! j = DbWrite \<lparr>msg_id = fst (10::nat, 11::nat), conversation_id = 1,
             role = ''user'', content = ''Hi'', model = None\<rparr>" .
  from inst [THEN conjunct2, THEN conjunct2, rule_format, OF saved]
  have 2: "\<lparr>msg_id = fst (10::nat, 11::nat), conversation_id = 1, role = ''user'', content = ''Hi'',
             model = None\<rparr> \<in> set (messages (snd ?turn))" .
  note lost = user_message_written_before_dispatch
    [of scenario_decode "''You are an AI assistant.''" scenario_server "(10, 11)"
        "\<lparr>conversations = [], messages = []\<rparr>" 1 "''Hi''" "''qwen3-vl:8b''",
     THEN conjunct2, THEN conjunct1, rule_format, OF failed]
  from lost have 3: "Send DoneEvent \<notin> set (fst ?lost)"
    and 4: "snd ?lost = \<lparr>conversations = [], messages = []\<rparr>"
    by simp_all
  from 1 2 3 4 show ?thesis by simp
qed

end
